theory Spec2Isabelle
  imports Main "HOL-Library.AList" "HOL-Library.Char_ord" "HOL-Library.List_Lexorder"
begin

section \<open>The indexer of src/indexer/load.js\<close>

text \<open>
  The theory embeds the reconciliation engine of \<^verbatim>\<open>indexer.import\<close> (the pass over the
  metadata, the two passes over the table of contents, the favicon cache, and the
  comparison of the generated files with the old ones) and its helpers (\<^verbatim>\<open>getIndexPath\<close>,
  \<^verbatim>\<open>parseIndexDat\<close>, \<^verbatim>\<open>getUniqueId\<close>, \<^verbatim>\<open>generateFolder\<close>).

  Conventions of the embedding:
  \<^item> A JavaScript string-valued field that may be \<^verbatim>\<open>undefined\<close> is a \<open>string option\<close>;
    \<open>None\<close> is \<^verbatim>\<open>undefined\<close>. A value is truthy when it is a non-empty string.
  \<^item> The objects \<^verbatim>\<open>scrapbookData.meta\<close>, \<^verbatim>\<open>scrapbookData.toc\<close> and the zip are
    association lists: the order of the list is the order in which \<^verbatim>\<open>for ... in\<close> and
    \<^verbatim>\<open>Object.keys\<close> enumerate the keys, and a new key is appended at the end (as
    JavaScript does for keys that are not array indices). Objects that are only looked up
    (\<^verbatim>\<open>dataDirs\<close>, \<^verbatim>\<open>treeFiles\<close>, \<^verbatim>\<open>itemFiles\<close>) are maps.
  \<^item> A plain object also answers to the names it inherits from \<^verbatim>\<open>Object.prototype\<close>:
    reading \<^verbatim>\<open>obj[k]\<close> for such a name gives a function (for \<^verbatim>\<open>__proto__\<close> the
    prototype), which is truthy and has none of the fields of an entry, and assigning a
    string to \<^verbatim>\<open>obj["__proto__"]\<close> defines no key. The predicate \<open>inherited\<close> lists
    these names, and the tests of the code that read an object at a key are modelled with
    it. An association list holds the keys an object owns.
  \<^item> The messages written by \<^verbatim>\<open>this.log\<close> and \<^verbatim>\<open>this.error\<close> are not part of the state.
  \<^item> Functions of the \<^verbatim>\<open>scrapbook\<close> library, which is not part of the file, are
    parameters, collected in the records \<open>env\<close> and \<open>iconLib\<close>.
\<close>

subsection \<open>JavaScript values\<close>

definition truthy :: "string option \<Rightarrow> bool" where
  "truthy v = (case v of None \<Rightarrow> False | Some s \<Rightarrow> s \<noteq> [])"

text \<open>\<^verbatim>\<open>a || b\<close> on string-or-undefined values.\<close>

definition js_or :: "string option \<Rightarrow> string option \<Rightarrow> string option" where
  "js_or a b = (if truthy a then a else b)"

text \<open>\<^verbatim>\<open>a || ""\<close>, read as a string.\<close>

definition orEmpty :: "string option \<Rightarrow> string" where
  "orEmpty v = (case v of None \<Rightarrow> [] | Some s \<Rightarrow> s)"

text \<open>The names of the properties of \<^verbatim>\<open>Object.prototype\<close>.\<close>

definition inherited :: "string \<Rightarrow> bool" where
  "inherited k =
     (k \<in> set [''constructor'', ''__proto__'', ''hasOwnProperty'', ''isPrototypeOf'',
                ''propertyIsEnumerable'', ''toLocaleString'', ''toString'', ''valueOf'',
                ''__defineGetter__'', ''__defineSetter__'', ''__lookupGetter__'',
                ''__lookupSetter__''])"

definition startsWith :: "string \<Rightarrow> string \<Rightarrow> bool" where
  "startsWith s p = (take (length p) s = p)"

text \<open>\<^verbatim>\<open>s.split(c)\<close> for a separator of one character: never the empty list.\<close>

fun splitOn :: "char \<Rightarrow> string \<Rightarrow> string list" where
  "splitOn c [] = [[]]"
| "splitOn c (x # xs) =
     (if x = c then [] # splitOn c xs
      else (case splitOn c xs of
              [] \<Rightarrow> [[x]]
            | y # ys \<Rightarrow> (x # y) # ys))"

text \<open>\<^verbatim>\<open>values.join(c)\<close>.\<close>

fun joinWith :: "char \<Rightarrow> string list \<Rightarrow> string" where
  "joinWith c [] = []"
| "joinWith c [x] = x"
| "joinWith c (x # y # ys) = x @ c # joinWith c (y # ys)"

abbreviation TAB :: char where "TAB \<equiv> CHR 0x09"
abbreviation LF :: char where "LF \<equiv> CHR 0x0A"

subsection \<open>\<^verbatim>\<open>getIndexPath\<close> (lines 1261 to 1292)\<close>

definition getIndexPath :: "(string \<rightharpoonup> 'f) \<Rightarrow> string \<Rightarrow> string option" where
  "getIndexPath itemFiles ident =
     (if itemFiles (ident @ ''/index.html'') \<noteq> None then Some (ident @ ''/index.html'')
      else if itemFiles (ident @ ''.html'') \<noteq> None then Some (ident @ ''.html'')
      else if itemFiles (ident @ ''.htm'') \<noteq> None then Some (ident @ ''.htm'')
      else if itemFiles (ident @ ''.xhtml'') \<noteq> None then Some (ident @ ''.xhtml'')
      else if itemFiles (ident @ ''.xht'') \<noteq> None then Some (ident @ ''.xht'')
      else if itemFiles (ident @ ''.maff'') \<noteq> None then Some (ident @ ''.maff'')
      else if itemFiles (ident @ ''.htz'') \<noteq> None then Some (ident @ ''.htz'')
      else if itemFiles (ident @ ''.mht'') \<noteq> None then Some (ident @ ''.mht'')
      else if itemFiles (ident @ ''.epub'') \<noteq> None then Some (ident @ ''.epub'')
      else None)"

text \<open>The candidates in the order the specification lists them.\<close>

definition indexCandidates :: "string \<Rightarrow> string list" where
  "indexCandidates ident =
     [ident @ ''/index.html'', ident @ ''.html'', ident @ ''.htm'', ident @ ''.xhtml'',
      ident @ ''.xht'', ident @ ''.maff'', ident @ ''.htz'', ident @ ''.mht'', ident @ ''.epub'']"

subsection \<open>\<^verbatim>\<open>parseIndexDat\<close> (lines 1307 to 1317)\<close>

text \<open>
  The result is the flat object the loop fills: the map gives the value of every key the
  object owns. The eight fields of \<^verbatim>\<open>getDefaultMeta\<close> start as \<^verbatim>\<open>undefined\<close>, which
  the map renders as \<open>None\<close>. The assignment \<^verbatim>\<open>meta[key] = ...\<close> of line 1314 defines
  the key, except for the key \<^verbatim>\<open>__proto__\<close>: there it reaches the setter inherited from
  \<^verbatim>\<open>Object.prototype\<close>, which ignores a string, and the object gets no key.
\<close>

definition indexDatLine :: "string \<Rightarrow> (string \<rightharpoonup> string) \<Rightarrow> (string \<rightharpoonup> string)" where
  "indexDatLine d meta =
     (case splitOn TAB d of
        [] \<Rightarrow> meta
      | key # values \<Rightarrow>
          if values = [] then meta
          else if key = ''__proto__'' then meta
          else meta(key \<mapsto> joinWith TAB values))"

definition parseIndexDat :: "string \<Rightarrow> (string \<rightharpoonup> string) option" where
  "parseIndexDat text =
     (let data = splitOn LF text in
      if length data < 2 then None
      else Some (fold indexDatLine data Map.empty))"

text \<open>
  The mapping in the words of the claim: every line gives its first tab-separated field as
  a key, with the remaining fields joined by tabs as the value; a later line wins.
\<close>

definition indexDatClaimed :: "string \<Rightarrow> (string \<rightharpoonup> string)" where
  "indexDatClaimed text =
     map_of (rev (map (\<lambda>d. (hd (splitOn TAB d), joinWith TAB (tl (splitOn TAB d))))
                      (splitOn LF text)))"

text \<open>
  The lines that define a key: those with at least one tab whose first field is not
  \<^verbatim>\<open>__proto__\<close>.
\<close>

definition indexDatEntries :: "string \<Rightarrow> (string \<times> string) list" where
  "indexDatEntries text =
     map (\<lambda>d. (hd (splitOn TAB d), joinWith TAB (tl (splitOn TAB d))))
         (filter (\<lambda>d. tl (splitOn TAB d) \<noteq> [] \<and> hd (splitOn TAB d) \<noteq> ''__proto__'')
                 (splitOn LF text))"

subsection \<open>Metadata entries and the environment\<close>

text \<open>
  An entry of \<^verbatim>\<open>scrapbookData.meta\<close>. The fields \<open>m_id\<close>, \<open>m_folder\<close> and \<open>m_exported\<close> are
  the transient ones. The field names carry the prefix \<open>m_\<close> because \<open>id\<close> is a constant
  of HOL.
\<close>

record meta =
  m_id :: "string option"
  m_index :: "string option"
  m_title :: "string option"
  m_type :: "string option"
  m_create :: "string option"
  m_modify :: "string option"
  m_source :: "string option"
  m_icon :: "string option"
  m_comment :: "string option"
  m_folder :: "string option"
  m_exported :: "string option"

definition getDefaultMeta :: meta where
  "getDefaultMeta =
     \<lparr>m_id = None, m_index = None, m_title = None, m_type = None, m_create = None,
      m_modify = None, m_source = None, m_icon = None, m_comment = None, m_folder = None,
      m_exported = None\<rparr>"

record jsfile =
  f_name :: string
  f_type :: string
  f_bytes :: string

text \<open>
  What the identifier \<^verbatim>\<open>index\<close> of line 770 resolves to. No enclosing scope of that line
  declares it (the \<^verbatim>\<open>const index\<close> of line 795 is local to a later block), so it is
  looked up in the global scope: it is unbound, or bound to a string or \<^verbatim>\<open>undefined\<close>, or
  bound to a value of another type.
\<close>

datatype outer_binding = Unbound | Bound "string option" | BoundOther

datatype error = ReferenceError | TypeError

text \<open>
  The library functions and the clock. A time is a number of milliseconds;
  \<open>clock env n\<close> is what the \<open>n\<close>-th reading of the current time in a run returns, so
  \<^verbatim>\<open>scrapbook.dateToId()\<close> is \<open>dateToId env (clock env n)\<close> for the next \<open>n\<close>.
\<close>

record env =
  dateToId :: "nat \<Rightarrow> string"
  idToDate :: "string \<Rightarrow> nat option"
  clock :: "nat \<Rightarrow> nat"
  urlToFilename :: "string \<Rightarrow> string"
  outerIndex :: outer_binding

subsection \<open>Processing the metadata (lines 756 to 832)\<close>

record fix_state =
  metas :: "(string \<times> meta) list"
  dataDirs :: "string \<rightharpoonup> (string \<rightharpoonup> jsfile)"
  reads :: nat

text \<open>
  How the body of a loop ends: \<open>Next\<close> goes on with the next key (the end of the body or
  \<^verbatim>\<open>continue\<close>), \<open>Return\<close> leaves the enclosing callback, \<open>Throw\<close> raises.
\<close>

datatype 'a flow = Next 'a | Return 'a | Throw error

text \<open>Lines 805 to 831: the fallbacks, on the entry stored under \<open>ident\<close>.\<close>

definition fallbackTitle :: "env \<Rightarrow> string \<Rightarrow> meta \<Rightarrow> string option" where
  "fallbackTitle env ident meta =
     (if truthy (m_title meta) then m_title meta
      else if orEmpty (m_source meta) \<noteq> [] \<and> urlToFilename env (orEmpty (m_source meta)) \<noteq> []
           then Some (urlToFilename env (orEmpty (m_source meta)))
      else if orEmpty (m_type meta) \<noteq> ''separator'' then Some ident
      else Some [])"

definition fallbackFields :: "env \<Rightarrow> nat \<Rightarrow> string \<Rightarrow> meta \<Rightarrow> meta" where
  "fallbackFields env n ident meta =
     (let modify = (if truthy (m_modify meta) then m_modify meta
                    else Some (dateToId env (clock env n)))
      in meta\<lparr>m_type := Some (orEmpty (m_type meta)),
              m_source := Some (orEmpty (m_source meta)),
              m_title := fallbackTitle env ident meta,
              m_modify := modify,
              m_create := js_or (m_create meta) modify,
              m_icon := Some (orEmpty (m_icon meta)),
              m_comment := Some (orEmpty (m_comment meta))\<rparr>)"

text \<open>The clock is read only when \<^verbatim>\<open>meta.modify\<close> is empty.\<close>

definition fallbackReads :: "nat \<Rightarrow> meta \<Rightarrow> nat" where
  "fallbackReads n meta = (if truthy (m_modify meta) then n else Suc n)"

text \<open>Lines 794 to 802: a missing index file is looked for again.\<close>

definition fixIndex :: "(string \<rightharpoonup> jsfile) \<Rightarrow> string \<Rightarrow> meta \<Rightarrow> meta" where
  "fixIndex itemFiles ident meta =
     (if \<not> truthy (m_index meta) \<or> itemFiles (orEmpty (m_index meta)) = None
      then (if truthy (getIndexPath itemFiles ident)
            then meta\<lparr>m_index := getIndexPath itemFiles ident\<rparr>
            else meta)
      else meta)"

text \<open>
  Lines 785 to 832. \<open>live\<close> tells whether the object \<open>meta\<close> is still stored under
  \<open>ident\<close>: after line 780 it is not, and the body goes on with the detached object.
\<close>

definition fixRest :: "env \<Rightarrow> fix_state \<Rightarrow> bool \<Rightarrow> string \<Rightarrow> meta \<Rightarrow> fix_state flow" where
  "fixRest env st live ident meta =
     (if orEmpty (m_type meta) \<notin> {''folder'', ''separator'', ''bookmark''} \<and>
         dataDirs st ident = None
      then Next (st\<lparr>metas := AList.delete ident (metas st)\<rparr>)
      else
        let meta1 = (if orEmpty (m_type meta) \<notin> {''folder'', ''separator'', ''bookmark''}
                     then fixIndex (the (dataDirs st ident)) ident meta
                     else meta);
            meta2 = fallbackFields env (reads st) ident meta1
        in Next (st\<lparr>metas := (if live then AList.update ident meta2 (metas st) else metas st),
                     reads := fallbackReads (reads st) meta1\<rparr>))"

definition moveDataDir ::
  "string \<Rightarrow> string \<Rightarrow> (string \<rightharpoonup> (string \<rightharpoonup> jsfile)) \<Rightarrow> (string \<rightharpoonup> (string \<rightharpoonup> jsfile))" where
  "moveDataDir ident newId dirs = dirs(newId := dirs ident, ident := None)"

text \<open>
  Line 762 and line 770 read \<^verbatim>\<open>scrapbookData.meta[newId]\<close>: the result is \<open>None\<close> when
  the read is falsy, and else the \<^verbatim>\<open>index\<close> field of what was read, which is undefined
  for an inherited name.
\<close>

definition occupantIndex :: "(string \<times> meta) list \<Rightarrow> string \<Rightarrow> string option option" where
  "occupantIndex ms newId =
     (case map_of ms newId of
        Some other \<Rightarrow> Some (m_index other)
      | None \<Rightarrow> if inherited newId then Some None else None)"

text \<open>
  Lines 757 to 783, then the rest of the body. A key that is no longer in the object is
  not enumerated.
\<close>

definition fixItem :: "env \<Rightarrow> fix_state \<Rightarrow> string \<Rightarrow> fix_state flow" where
  "fixItem env st ident =
     (case map_of (metas st) ident of
        None \<Rightarrow> Next st
      | Some meta \<Rightarrow>
          if truthy (m_id meta) \<and> m_id meta \<noteq> Some ident then
            (let newId = orEmpty (m_id meta) in
             case occupantIndex (metas st) newId of
               None \<Rightarrow>
                 fixRest env
                   (st\<lparr>metas := AList.update newId meta (AList.delete ident (metas st)),
                       dataDirs := moveDataDir ident newId (dataDirs st)\<rparr>)
                   True newId meta
             | Some otherIndex \<Rightarrow>
                 (case outerIndex env of
                    Unbound \<Rightarrow> Throw ReferenceError
                  | Bound v \<Rightarrow>
                      if otherIndex = v
                      then Return (st\<lparr>dataDirs := moveDataDir ident newId (dataDirs st)\<rparr>)
                      else fixRest env (st\<lparr>metas := AList.delete ident (metas st)\<rparr>)
                             False ident meta
                  | BoundOther \<Rightarrow>
                      fixRest env (st\<lparr>metas := AList.delete ident (metas st)\<rparr>)
                        False ident meta))
          else fixRest env st True ident meta)"

text \<open>
  The loop of line 756 over the keys that the object has when the loop starts; keys added
  by the body are not enumerated.
\<close>

fun fixLoop :: "env \<Rightarrow> fix_state \<Rightarrow> string list \<Rightarrow> fix_state flow" where
  "fixLoop env st [] = Next st"
| "fixLoop env st (k # ks) =
     (case fixItem env st k of
        Next st' \<Rightarrow> fixLoop env st' ks
      | Return st' \<Rightarrow> Return st'
      | Throw e \<Rightarrow> Throw e)"

definition fixMeta :: "env \<Rightarrow> fix_state \<Rightarrow> fix_state flow" where
  "fixMeta env st = fixLoop env st (map fst (metas st))"

text \<open>
  The inputs on which no entry reaches line 770: no key is an inherited name, and an
  identifier that an entry declares in place of its key is neither a key, nor an inherited
  name, nor declared by another entry.
\<close>

definition noIdClash :: "(string \<times> meta) list \<Rightarrow> bool" where
  "noIdClash ms =
     (\<forall>k m. map_of ms k = Some m \<longrightarrow>
        \<not> inherited k \<and>
        (truthy (m_id m) \<longrightarrow> m_id m \<noteq> Some k \<longrightarrow>
           map_of ms (orEmpty (m_id m)) = None \<and> \<not> inherited (orEmpty (m_id m)) \<and>
           (\<forall>k' m'. k' \<noteq> k \<longrightarrow> map_of ms k' = Some m' \<longrightarrow> m_id m' \<noteq> m_id m)))"

subsection \<open>Results of code that may raise or loop\<close>

text \<open>
  \<open>None\<close> is a loop that never ends, \<open>Some (Inl e)\<close> an exception, \<open>Some (Inr x)\<close> the
  value returned.
\<close>

type_synonym 'a result = "(error + 'a) option"

fun foldR :: "('a \<Rightarrow> 's \<Rightarrow> 's result) \<Rightarrow> 'a list \<Rightarrow> 's \<Rightarrow> 's result" where
  "foldR f [] s = Some (Inr s)"
| "foldR f (x # xs) s =
     (case f x s of
        None \<Rightarrow> None
      | Some (Inl e) \<Rightarrow> Some (Inl e)
      | Some (Inr s') \<Rightarrow> foldR f xs s')"

subsection \<open>The table of contents: pruning (lines 834 to 864)\<close>

text \<open>
  The state of the two passes over the table of contents: the metadata, the table itself
  (parent to ordered children), the set \<^verbatim>\<open>referredIds\<close>, the map \<^verbatim>\<open>titleIdMap\<close> (its
  keys are titles, which may be \<^verbatim>\<open>undefined\<close>) and the number of clock readings so far.
\<close>

record toc_state =
  t_meta :: "(string \<times> meta) list"
  t_toc :: "(string \<times> string list) list"
  referredIds :: "string set"
  titleIdMap :: "string option \<rightharpoonup> string"
  t_reads :: nat

definition reserved :: "string \<Rightarrow> bool" where
  "reserved k = (k = ''root'' \<or> k = ''hidden'')"

text \<open>Lines 394 to 400: the table of contents a run starts with.\<close>

definition initialToc :: "(string \<times> string list) list" where
  "initialToc = [(''root'', [])]"

text \<open>The test of the filter of lines 846 to 858.\<close>

definition keepRef :: "(string \<times> meta) list \<Rightarrow> string \<Rightarrow> bool" where
  "keepRef ms refId = ((map_of ms refId \<noteq> None \<or> inherited refId) \<and> \<not> reserved refId)"

text \<open>
  Line 856, for a reference kept; what is read at an inherited name has no title.
\<close>

definition setTitle ::
  "(string \<times> meta) list \<Rightarrow> string \<Rightarrow> (string option \<rightharpoonup> string) \<Rightarrow> (string option \<rightharpoonup> string)" where
  "setTitle ms refId tm =
     (case map_of ms refId of
        None \<Rightarrow> if inherited refId then tm(None \<mapsto> refId) else tm
      | Some m \<Rightarrow> tm(m_title m \<mapsto> refId))"

text \<open>The body of the loop of line 839 for one key.\<close>

definition pruneKey :: "string \<Rightarrow> toc_state \<Rightarrow> toc_state" where
  "pruneKey ident st =
     (case map_of (t_toc st) ident of
        None \<Rightarrow> st
      | Some cs \<Rightarrow>
          if map_of (t_meta st) ident = None \<and> \<not> inherited ident \<and> \<not> reserved ident
          then st\<lparr>t_toc := AList.delete ident (t_toc st)\<rparr>
          else
            let kept = filter (keepRef (t_meta st)) cs;
                st1 = st\<lparr>t_toc := AList.update ident kept (t_toc st),
                         referredIds := referredIds st \<union> set kept,
                         titleIdMap := fold (setTitle (t_meta st)) kept (titleIdMap st)\<rparr>
            in if kept = [] \<and> \<not> reserved ident
               then st1\<lparr>t_toc := AList.delete ident (t_toc st1)\<rparr>
               else st1)"

definition pruneToc :: "toc_state \<Rightarrow> toc_state" where
  "pruneToc st = fold pruneKey (map fst (t_toc st)) st"

subsection \<open>\<^verbatim>\<open>getUniqueId\<close> and \<^verbatim>\<open>generateFolder\<close> (lines 1369 to 1390)\<close>

text \<open>The \<^verbatim>\<open>do ... while\<close> loop of lines 1374 to 1378, from the time \<open>v\<close>.\<close>

partial_function (option) uniqueIdLoop ::
  "(nat \<Rightarrow> string) \<Rightarrow> (string \<Rightarrow> bool) \<Rightarrow> nat \<Rightarrow> string option" where
  "uniqueIdLoop toId used v =
     (if used (toId (Suc v)) then uniqueIdLoop toId used (Suc v) else Some (toId (Suc v)))"

declare uniqueIdLoop.simps [code]

text \<open>
  \<^verbatim>\<open>scrapbook.idToDate\<close> gives \<^verbatim>\<open>null\<close> for a string that is not an identifier; calling
  \<^verbatim>\<open>valueOf\<close> on it raises a TypeError.
\<close>

definition getUniqueId :: "env \<Rightarrow> string \<Rightarrow> (string \<times> meta) list \<Rightarrow> string result" where
  "getUniqueId env ident ms =
     (if map_of ms ident = None \<and> \<not> inherited ident then Some (Inr ident)
      else (case idToDate env ident of
              None \<Rightarrow> Some (Inl TypeError)
            | Some v \<Rightarrow>
                map_option Inr
                  (uniqueIdLoop (dateToId env) (\<lambda>i. map_of ms i \<noteq> None \<or> inherited i) v)))"

definition folderMeta :: "string \<Rightarrow> string \<Rightarrow> meta" where
  "folderMeta title folderId =
     getDefaultMeta\<lparr>m_type := Some ''folder'', m_title := Some title, m_create := Some folderId\<rparr>"

definition generateFolder :: "env \<Rightarrow> string \<Rightarrow> toc_state \<Rightarrow> (string \<times> toc_state) result" where
  "generateFolder env title st =
     (case getUniqueId env (dateToId env (clock env (t_reads st))) (t_meta st) of
        None \<Rightarrow> None
      | Some (Inl e) \<Rightarrow> Some (Inl e)
      | Some (Inr folderId) \<Rightarrow>
          Some (Inr (folderId,
            st\<lparr>t_meta := AList.update folderId (folderMeta title folderId) (t_meta st),
               t_reads := Suc (t_reads st)\<rparr>)))"

subsection \<open>The table of contents: adding new items (lines 866 to 910)\<close>

text \<open>The characters of the class \<^verbatim>\<open>[\t\n\r\v\f]\<close>.\<close>

definition folderSep :: "char \<Rightarrow> bool" where
  "folderSep c = (c = CHR 0x09 \<or> c = CHR 0x0A \<or> c = CHR 0x0D \<or> c = CHR 0x0B \<or> c = CHR 0x0C)"

text \<open>\<^verbatim>\<open>s.split(/[...]+/)\<close>: a run of separators splits once.\<close>

function splitRuns :: "(char \<Rightarrow> bool) \<Rightarrow> string \<Rightarrow> string list" where
  "splitRuns sep [] = [[]]"
| "splitRuns sep (c # cs) =
     (if sep c then [] # splitRuns sep (dropWhile sep cs)
      else (case splitRuns sep cs of
              [] \<Rightarrow> [[c]]
            | y # ys \<Rightarrow> (c # y) # ys))"
  by pat_completeness auto
termination
  by (relation "measure (\<lambda>(sep, s). length s)")
     (auto simp: length_dropWhile_le less_Suc_eq_le)

text \<open>Lines 885 to 887.\<close>

definition ensureToc :: "string \<Rightarrow> toc_state \<Rightarrow> toc_state" where
  "ensureToc folderId st =
     (if map_of (t_toc st) folderId = None \<and> \<not> inherited folderId
      then st\<lparr>t_toc := AList.update folderId [] (t_toc st)\<rparr>
      else st)"

text \<open>\<^verbatim>\<open>toc[parentId].push(x)\<close>; it raises a TypeError when the parent has no list.\<close>

definition pushChild :: "string \<Rightarrow> string \<Rightarrow> toc_state \<Rightarrow> toc_state result" where
  "pushChild parentId x st =
     (case map_of (t_toc st) parentId of
        None \<Rightarrow> Some (Inl TypeError)
      | Some cs \<Rightarrow> Some (Inr (st\<lparr>t_toc := AList.update parentId (cs @ [x]) (t_toc st)\<rparr>)))"

text \<open>
  Line 879: the folder found by its title is used when it has an entry and is already
  linked under the current parent.
\<close>

definition linkedFolder :: "toc_state \<Rightarrow> string \<Rightarrow> string \<Rightarrow> string option" where
  "linkedFolder st parentId folder =
     (case titleIdMap st (Some folder) of
        None \<Rightarrow> None
      | Some folderId \<Rightarrow>
          (case map_of (t_toc st) parentId of
             None \<Rightarrow> None
           | Some cs \<Rightarrow>
               if (map_of (t_meta st) folderId \<noteq> None \<or> inherited folderId) \<and>
                  folderId \<in> set cs
               then Some folderId else None))"

text \<open>
  The body of the \<^verbatim>\<open>forEach\<close> of lines 877 to 889 for one path segment; the state
  carries the current parent.
\<close>

definition insertSegment ::
  "env \<Rightarrow> string \<Rightarrow> toc_state \<times> string \<Rightarrow> (toc_state \<times> string) result" where
  "insertSegment env folder sp =
     (case sp of (st, parentId) \<Rightarrow>
        if map_of (t_toc st) parentId = None then Some (Inl TypeError)
        else
          (case linkedFolder st parentId folder of
             Some folderId \<Rightarrow> Some (Inr (ensureToc folderId st, folderId))
           | None \<Rightarrow>
               (case generateFolder env folder st of
                  None \<Rightarrow> None
                | Some (Inl e) \<Rightarrow> Some (Inl e)
                | Some (Inr (folderId, st1)) \<Rightarrow>
                    (case pushChild parentId folderId st1 of
                       None \<Rightarrow> None
                     | Some (Inl e) \<Rightarrow> Some (Inl e)
                     | Some (Inr st2) \<Rightarrow>
                         Some (Inr (ensureToc folderId
                                      (st2\<lparr>titleIdMap := (titleIdMap st2)(Some folder \<mapsto> folderId)\<rparr>),
                                    folderId))))))"

text \<open>\<^verbatim>\<open>insertToToc\<close>, lines 869 to 892.\<close>

definition insertToToc :: "env \<Rightarrow> string \<Rightarrow> toc_state \<Rightarrow> toc_state result" where
  "insertToToc env ident st =
     (case map_of (t_meta st) ident of
        None \<Rightarrow> Some (Inl TypeError)
      | Some m \<Rightarrow>
          if \<not> truthy (m_folder m) then pushChild ''root'' ident st
          else
            (case foldR (insertSegment env) (splitRuns folderSep (orEmpty (m_folder m)))
                    (st, ''root'') of
               None \<Rightarrow> None
             | Some (Inl e) \<Rightarrow> Some (Inl e)
             | Some (Inr (st1, parentId)) \<Rightarrow> pushChild parentId ident st1))"

text \<open>Lines 906 to 909: the transient fields are deleted.\<close>

definition stripTransient :: "string \<Rightarrow> toc_state \<Rightarrow> toc_state" where
  "stripTransient ident st =
     (case map_of (t_meta st) ident of
        None \<Rightarrow> st
      | Some m \<Rightarrow>
          st\<lparr>t_meta := AList.update ident (m\<lparr>m_id := None, m_folder := None, m_exported := None\<rparr>)
                          (t_meta st)\<rparr>)"

text \<open>The body of the loop of lines 894 to 910 for one key.\<close>

definition addItem :: "env \<Rightarrow> string \<Rightarrow> toc_state \<Rightarrow> toc_state result" where
  "addItem env ident st =
     (if ident \<notin> referredIds st \<and> \<not> reserved ident
      then (case insertToToc env ident st of
              None \<Rightarrow> None
            | Some (Inl e) \<Rightarrow> Some (Inl e)
            | Some (Inr st1) \<Rightarrow>
                Some (Inr (stripTransient ident
                  (st1\<lparr>titleIdMap := setTitle (t_meta st1) ident (titleIdMap st1)\<rparr>))))
      else Some (Inr (stripTransient ident st)))"

text \<open>
  The sort of lines 894 to 900. The comparison function compares the two-element arrays
  \<^verbatim>\<open>[exported, id]\<close> with \<^verbatim>\<open><\<close> and \<^verbatim>\<open>>\<close>, which compare their string forms: the
  elements joined by a comma, an undefined element giving the empty string. The sort is
  stable.
\<close>

definition sortToken :: "(string \<times> meta) list \<Rightarrow> string \<Rightarrow> string" where
  "sortToken ms k =
     (case map_of ms k of
        None \<Rightarrow> '','' @ k
      | Some m \<Rightarrow> orEmpty (m_exported m) @ '','' @ k)"

definition addNewItems :: "env \<Rightarrow> toc_state \<Rightarrow> toc_state result" where
  "addNewItems env st =
     foldR (addItem env) (sort_key (sortToken (t_meta st)) (map fst (t_meta st))) st"

text \<open>Lines 834 to 910: the two passes over the table of contents.\<close>

definition startToc ::
  "(string \<times> meta) list \<Rightarrow> (string \<times> string list) list \<Rightarrow> nat \<Rightarrow> toc_state" where
  "startToc ms toc n =
     \<lparr>t_meta = ms, t_toc = toc, referredIds = {}, titleIdMap = Map.empty, t_reads = n\<rparr>"

definition fixToc ::
  "env \<Rightarrow> (string \<times> meta) list \<Rightarrow> (string \<times> string list) list \<Rightarrow> nat \<Rightarrow> toc_state result" where
  "fixToc env ms toc n = addNewItems env (pruneToc (startToc ms toc n))"

text \<open>
  The whole callback of lines 751 to 911: the metadata pass, then the two passes over the
  table of contents. The \<^verbatim>\<open>return\<close> of line 777 leaves the callback, so the table of
  contents stays as it was read.
\<close>

definition fixMetaAndToc ::
  "env \<Rightarrow> fix_state \<Rightarrow> (string \<times> string list) list \<Rightarrow>
     ((string \<times> meta) list \<times> (string \<times> string list) list) result" where
  "fixMetaAndToc env st toc =
     (case fixMeta env st of
        Throw e \<Rightarrow> Some (Inl e)
      | Return st1 \<Rightarrow> Some (Inr (metas st1, toc))
      | Next st1 \<Rightarrow>
          (case fixToc env (metas st1) toc (reads st1) of
             None \<Rightarrow> None
           | Some (Inl e) \<Rightarrow> Some (Inl e)
           | Some (Inr t) \<Rightarrow> Some (Inr (t_meta t, t_toc t))))"

subsection \<open>The zip\<close>

text \<open>
  An entry of the zip: whether it is a directory, and its content. The zip is an
  association list from paths to entries.
\<close>

record zipObj =
  z_dir :: bool
  z_bytes :: string

type_synonym zipfile = "(string \<times> zipObj) list"

text \<open>
  \<^verbatim>\<open>scrapbook.zipAddFile(zip, path, file, ...)\<close> stores the content of the file at the path;
  compression and dates are not modelled.
\<close>

definition zipAddFile :: "string \<Rightarrow> string \<Rightarrow> zipfile \<Rightarrow> zipfile" where
  "zipAddFile path bytes zp = AList.update path \<lparr>z_dir = False, z_bytes = bytes\<rparr> zp"

subsection \<open>The favicon cache (lines 911 to 1008)\<close>

text \<open>
  What a request for an icon answers: the file name of the \<^verbatim>\<open>Content-Disposition\<close> header
  when there is one (\<^verbatim>\<open>headers.filename\<close>), the final address (\<^verbatim>\<open>xhr.responseURL\<close>), and
  the type and the content of the blob.
\<close>

record response =
  r_filename :: "string option"
  r_url :: string
  r_mime :: string
  r_body :: string

text \<open>
  The functions of the library that the pass calls. A request may fail, and
  \<^verbatim>\<open>scrapbook.dataUriToFile\<close> may raise: the result is then \<open>None\<close>. The answer to a request
  may depend on when it is made: the first argument of \<open>xhr\<close> is the number of sources
  accessed before. \<^verbatim>\<open>scrapbook.filenameParts\<close> gives the base and the extension, and
  \<^verbatim>\<open>Mime.prototype.extension\<close> the extension for a type, empty when there is none.
\<close>

record iconLib =
  dataUriToFile :: "string \<Rightarrow> jsfile option"
  xhr :: "nat \<Rightarrow> string \<Rightarrow> response option"
  filenameParts :: "string \<Rightarrow> string \<times> string"
  mimeExtension :: "string \<Rightarrow> string"
  arraySha1 :: "string \<Rightarrow> string"

text \<open>Lines 932 to 976: the promise \<^verbatim>\<open>p\<close>, for the source \<open>url\<close>.\<close>

definition fetchIcon :: "env \<Rightarrow> iconLib \<Rightarrow> nat \<Rightarrow> string \<Rightarrow> jsfile option" where
  "fetchIcon env lib n url =
     (if startsWith url ''data:'' then dataUriToFile lib url
      else (case xhr lib n url of
              None \<Rightarrow> None
            | Some r \<Rightarrow>
                let ext = snd (filenameParts lib
                            (if truthy (r_filename r) then orEmpty (r_filename r)
                             else urlToFilename env (r_url r)));
                    mime = r_mime r
                in if \<not> startsWith mime ''image/'' \<and> mime \<noteq> ''application/octet-stream''
                   then None
                   else
                     let ext1 = (if ext = [] then mimeExtension lib mime else ext);
                         ext2 = (if ext1 \<noteq> [] then ''.'' @ ext1 else [])
                     in Some \<lparr>f_name = arraySha1 lib (r_body r) @ ext2, f_type = mime,
                              f_bytes = r_body r\<rparr>))"

text \<open>
  The state of the pass: the metadata, \<^verbatim>\<open>urlAccessMap\<close> (a source leads to the outcome of
  its promise, a file or a failure), the sources accessed so far, in order, and the zip.
\<close>

record icon_state =
  i_meta :: "(string \<times> meta) list"
  urlAccessMap :: "string \<rightharpoonup> jsfile option"
  fetched :: "string list"
  i_zip :: zipfile

text \<open>Lines 915 and 916: the pass starts with an empty \<^verbatim>\<open>urlAccessMap\<close>.\<close>

definition startIcons :: "(string \<times> meta) list \<Rightarrow> zipfile \<Rightarrow> icon_state" where
  "startIcons ms zp = \<lparr>i_meta = ms, urlAccessMap = Map.empty, fetched = [], i_zip = zp\<rparr>"

text \<open>Line 1002, for the entry \<open>m\<close> stored under \<open>ident\<close>.\<close>

definition setIcon :: "string \<Rightarrow> meta \<Rightarrow> string option \<Rightarrow> icon_state \<Rightarrow> icon_state" where
  "setIcon ident m favIconUrl st =
     st\<lparr>i_meta := AList.update ident (m\<lparr>m_icon := Some (orEmpty favIconUrl)\<rparr>) (i_meta st)\<rparr>"

text \<open>Lines 926 to 978: the earlier access to the source, or a new one, which is recorded.\<close>

definition accessIcon ::
  "env \<Rightarrow> iconLib \<Rightarrow> string \<Rightarrow> icon_state \<Rightarrow> jsfile option \<times> icon_state" where
  "accessIcon env lib url st =
     (case urlAccessMap st url of
        Some prevAccess \<Rightarrow> (prevAccess, st)
      | None \<Rightarrow>
          let p = fetchIcon env lib (length (fetched st)) url
          in (p, st\<lparr>urlAccessMap := (urlAccessMap st)(url \<mapsto> p),
                    fetched := fetched st @ [url]\<rparr>))"

text \<open>Line 993: the address of the cached file as seen from the index file of the item.\<close>

definition iconUrl :: "string \<Rightarrow> jsfile \<Rightarrow> string" where
  "iconUrl index file =
     (if CHR ''/'' \<in> set index then ''../'' else []) @ ''../'' @ ''tree/favicon/'' @ f_name file"

text \<open>
  The promise that lines 918 to 1006 put in \<^verbatim>\<open>tasks\<close> for one key. Each of these promises
  reads the entry of its key before any of them writes, and writes the icon of its key
  only; the accesses to \<^verbatim>\<open>urlAccessMap\<close> happen in the order of the keys, each in one step.
  So the model runs them one after the other.
\<close>

definition cacheIcon ::
  "env \<Rightarrow> iconLib \<Rightarrow> (string \<rightharpoonup> jsfile) \<Rightarrow> string \<Rightarrow> icon_state \<Rightarrow> icon_state" where
  "cacheIcon env lib treeFiles ident st =
     (case map_of (i_meta st) ident of
        None \<Rightarrow> st
      | Some m \<Rightarrow>
          let index = orEmpty (m_index m);
              favIconUrl = m_icon m
          in if \<not> truthy favIconUrl \<or> CHR '':'' \<notin> set (orEmpty favIconUrl)
             then setIcon ident m favIconUrl st
             else
               (case accessIcon env lib (orEmpty favIconUrl) st of
                  (None, st1) \<Rightarrow> setIcon ident m None st1
                | (Some file, st1) \<Rightarrow>
                    let path = ''tree/favicon/'' @ f_name file;
                        st2 = (if (case treeFiles path of
                                     None \<Rightarrow> True
                                   | Some oldFile \<Rightarrow> f_bytes oldFile = [])
                               then st1\<lparr>i_zip := zipAddFile path (f_bytes file) (i_zip st1)\<rparr>
                               else st1)
                    in setIcon ident m (Some (iconUrl index file)) st2))"

definition cacheFavicons ::
  "env \<Rightarrow> iconLib \<Rightarrow> (string \<rightharpoonup> jsfile) \<Rightarrow> icon_state \<Rightarrow> icon_state" where
  "cacheFavicons env lib treeFiles st =
     fold (cacheIcon env lib treeFiles) (map fst (i_meta st)) st"

text \<open>The icon that the pass stores for the entry \<open>m\<close>, from the outcomes of the accesses.\<close>

definition newIcon :: "(string \<rightharpoonup> jsfile option) \<Rightarrow> meta \<Rightarrow> string option" where
  "newIcon accesses m =
     (if \<not> truthy (m_icon m) \<or> CHR '':'' \<notin> set (orEmpty (m_icon m))
      then Some (orEmpty (m_icon m))
      else (case accesses (orEmpty (m_icon m)) of
              Some (Some file) \<Rightarrow> Some (iconUrl (orEmpty (m_index m)) file)
            | _ \<Rightarrow> Some []))"

text \<open>
  Every source accessed is recorded once, and \<^verbatim>\<open>urlAccessMap\<close> has just these sources,
  each with the outcome of its one access.
\<close>

definition accessesOk :: "env \<Rightarrow> iconLib \<Rightarrow> icon_state \<Rightarrow> bool" where
  "accessesOk env lib st =
     ((\<forall>u. u \<in> set (fetched st) \<longleftrightarrow> urlAccessMap st u \<noteq> None) \<and>
      distinct (fetched st) \<and>
      (\<forall>u r. urlAccessMap st u = Some r \<longrightarrow>
         (\<exists>n<length (fetched st). fetched st ! n = u \<and> r = fetchIcon env lib n u)))"

subsection \<open>Unused favicons, and the comparison with the old files (lines 1024 to 1153)\<close>

text \<open>
  Lines 1024 to 1034: every path of \<^verbatim>\<open>treeFiles\<close> under \<^verbatim>\<open>tree/favicon/\<close> that is not in
  \<^verbatim>\<open>referedFavIcons\<close> gets an empty file in the zip. The paths of \<^verbatim>\<open>treeFiles\<close> come in
  the order of the \<^verbatim>\<open>for ... in\<close> loop.
\<close>

definition sweepFavicons :: "string set \<Rightarrow> string list \<Rightarrow> zipfile \<Rightarrow> zipfile" where
  "sweepFavicons referedFavIcons treePaths zp =
     fold (\<lambda>path z.
            if startsWith path ''tree/favicon/'' \<and> path \<notin> referedFavIcons
            then zipAddFile path [] z else z)
          treePaths zp"

text \<open>Line 1128.\<close>

definition bakPath :: "string \<Rightarrow> string" where
  "bakPath path = ''tree.bak/'' @ drop (length ''tree/'') path"

text \<open>
  The callback of \<^verbatim>\<open>zip.forEach\<close> (lines 1123 to 1151) for one entry, with the work it
  queues: \<open>sha1\<close> is \<^verbatim>\<open>scrapbook.sha1\<close>, and the contents of the old file and of the entry
  are read without error.
\<close>

definition diffEntry ::
  "(string \<Rightarrow> string) \<Rightarrow> (string \<rightharpoonup> jsfile) \<Rightarrow> string \<times> zipObj \<Rightarrow> zipfile \<Rightarrow> zipfile" where
  "diffEntry sha1 treeFiles e zp =
     (case e of (path, obj) \<Rightarrow>
        if z_dir obj then zp
        else if \<not> startsWith path ''tree/'' then zp
        else if startsWith path ''tree/cache/'' then zp
        else (case treeFiles path of
                None \<Rightarrow> zp
              | Some oldFile \<Rightarrow>
                  if sha1 (f_bytes oldFile) \<noteq> sha1 (z_bytes obj)
                  then zipAddFile (bakPath path) (f_bytes oldFile) zp
                  else AList.delete path zp))"

text \<open>
  Lines 1119 to 1153: \<^verbatim>\<open>zip.forEach\<close> visits the entries the zip has when it is called;
  the additions and removals are queued and run afterwards, in the same order.
\<close>

definition diffBackup :: "(string \<Rightarrow> string) \<Rightarrow> (string \<rightharpoonup> jsfile) \<Rightarrow> zipfile \<Rightarrow> zipfile" where
  "diffBackup sha1 treeFiles zp = fold (diffEntry sha1 treeFiles) zp zp"

text \<open>An entry that the pass compares with its old file.\<close>

definition compared :: "(string \<rightharpoonup> jsfile) \<Rightarrow> string \<Rightarrow> zipObj \<Rightarrow> bool" where
  "compared treeFiles path obj =
     (\<not> z_dir obj \<and> startsWith path ''tree/'' \<and> \<not> startsWith path ''tree/cache/'' \<and>
      treeFiles path \<noteq> None)"

subsection \<open>Invariants of the table of contents\<close>

text \<open>
  The library's identifiers: \<^verbatim>\<open>scrapbook.dateToId\<close> gives different identifiers for
  different times, and \<^verbatim>\<open>scrapbook.idToDate\<close> reads the time back.
\<close>

definition idsOk :: "env \<Rightarrow> bool" where
  "idsOk env = (inj (dateToId env) \<and> (\<forall>t. idToDate env (dateToId env t) = Some t))"

text \<open>The identifiers that are a child of some key.\<close>

definition tocChildren :: "(string \<times> string list) list \<Rightarrow> string set" where
  "tocChildren toc = {c. \<exists>k cs. map_of toc k = Some cs \<and> c \<in> set cs}"

text \<open>
  The integrity of the table against the metadata: \<^verbatim>\<open>root\<close> is a key; no key of the
  metadata is an inherited name; every child has an entry or is an inherited name, and so
  has every key but the reserved ones; and only a reserved key, or the key \<open>p\<close> under
  which an insertion is in progress, has an empty list.
\<close>

definition tocInv :: "string \<Rightarrow> toc_state \<Rightarrow> bool" where
  "tocInv p st =
     (map_of (t_toc st) ''root'' \<noteq> None \<and>
      (\<forall>k. map_of (t_meta st) k \<noteq> None \<longrightarrow> \<not> inherited k) \<and>
      (\<forall>k cs. map_of (t_toc st) k = Some cs \<longrightarrow>
         (\<forall>c\<in>set cs. map_of (t_meta st) c \<noteq> None \<or> inherited c) \<and>
         (\<not> reserved k \<longrightarrow> map_of (t_meta st) k \<noteq> None \<or> inherited k) \<and>
         (cs = [] \<longrightarrow> reserved k \<or> k = p)))"

text \<open>
  Every title of \<^verbatim>\<open>titleIdMap\<close> leads to an entry that has this title, or it is the
  undefined title and leads to an inherited name.
\<close>

definition titlesOk :: "toc_state \<Rightarrow> bool" where
  "titlesOk st =
     (\<forall>t f. titleIdMap st t = Some f \<longrightarrow>
        (\<exists>m. map_of (t_meta st) f = Some m \<and> m_title m = t) \<or>
        (map_of (t_meta st) f = None \<and> inherited f \<and> t = None))"

text \<open>
  What adding items keeps: the set \<^verbatim>\<open>referredIds\<close>, the entries up to their transient
  fields, the children already linked, and the list of \<^verbatim>\<open>root\<close> as a prefix; an entry
  that is new is a child.
\<close>

definition grows :: "toc_state \<Rightarrow> toc_state \<Rightarrow> bool" where
  "grows st st' =
     (referredIds st' = referredIds st \<and>
      (\<forall>k m. map_of (t_meta st) k = Some m \<longrightarrow>
         (\<exists>m'. map_of (t_meta st') k = Some m' \<and> m_title m' = m_title m)) \<and>
      tocChildren (t_toc st) \<subseteq> tocChildren (t_toc st') \<and>
      (\<forall>k. map_of (t_meta st') k \<noteq> None \<longrightarrow>
         map_of (t_meta st) k \<noteq> None \<or> k \<in> tocChildren (t_toc st')) \<and>
      (\<forall>cs. map_of (t_toc st) ''root'' = Some cs \<longrightarrow>
         (\<exists>more. map_of (t_toc st') ''root'' = Some (cs @ more))))"

text \<open>What pruning leaves of the list \<open>cs\<close> of the key \<open>k\<close>.\<close>

definition prunedChildren :: "(string \<times> meta) list \<Rightarrow> string \<Rightarrow> string list \<Rightarrow> string list option" where
  "prunedChildren ms k cs =
     (if map_of ms k = None \<and> \<not> inherited k \<and> \<not> reserved k then None
      else if filter (keepRef ms) cs = [] \<and> \<not> reserved k then None
      else Some (filter (keepRef ms) cs))"

text \<open>
  No identifier is listed twice: every list is free of repetitions, and no identifier is
  in the lists of two keys.
\<close>

definition noDup :: "(string \<times> string list) list \<Rightarrow> bool" where
  "noDup toc =
     ((\<forall>k cs. map_of toc k = Some cs \<longrightarrow> distinct cs) \<and>
      (\<forall>k1 k2 cs1 cs2 c. map_of toc k1 = Some cs1 \<longrightarrow> map_of toc k2 = Some cs2 \<longrightarrow>
         c \<in> set cs1 \<longrightarrow> c \<in> set cs2 \<longrightarrow> k1 = k2))"

text \<open>The identifier \<open>c\<close> is a child exactly once: of one key, and once in its list.\<close>

definition occursOnce :: "(string \<times> string list) list \<Rightarrow> string \<Rightarrow> bool" where
  "occursOnce toc c =
     (\<exists>p cs. map_of toc p = Some cs \<and> count_list cs c = 1 \<and>
        (\<forall>q ds. map_of toc q = Some ds \<longrightarrow> c \<in> set ds \<longrightarrow> q = p))"

text \<open>The children that \<open>st'\<close> has more than \<open>st\<close> are in \<open>X\<close> or had no entry in \<open>st\<close>.\<close>

definition onlyNew :: "string set \<Rightarrow> toc_state \<Rightarrow> toc_state \<Rightarrow> bool" where
  "onlyNew X st st' =
     (\<forall>c\<in>tocChildren (t_toc st').
        c \<in> tocChildren (t_toc st) \<or> c \<in> X \<or> map_of (t_meta st) c = None)"

subsection \<open>Example inputs\<close>

definition exampleEnv :: env where
  "exampleEnv =
     \<lparr>dateToId = (\<lambda>n. replicate n (CHR ''1'')),
      idToDate = (\<lambda>s. Some (length s)),
      clock = (\<lambda>n. 5 + n),
      urlToFilename = (\<lambda>u. last (splitOn (CHR ''/'') u)),
      outerIndex = Unbound\<rparr>"

definition exampleFile :: jsfile where
  "exampleFile = \<lparr>f_name = ''a.html'', f_type = ''text/html'', f_bytes = ''<html></html>''\<rparr>"

definition fallbackExample :: fix_state where
  "fallbackExample =
     \<lparr>metas = [(''a'', getDefaultMeta\<lparr>m_source := Some ''http://x/p.html''\<rparr>),
               (''s'', getDefaultMeta\<lparr>m_type := Some ''separator''\<rparr>)],
      dataDirs = [''a'' \<mapsto> [''a.html'' \<mapsto> exampleFile]],
      reads = 0\<rparr>"

definition fallbackEntry :: meta where
  "fallbackEntry =
     getDefaultMeta\<lparr>m_index := Some ''a.html'', m_title := Some ''p.html'',
       m_type := Some [], m_create := Some ''11111'', m_modify := Some ''11111'',
       m_source := Some ''http://x/p.html'', m_icon := Some [], m_comment := Some []\<rparr>"

definition fallbackResult :: fix_state where
  "fallbackResult =
     fallbackExample\<lparr>metas :=
        [(''a'', fallbackEntry),
         (''s'', getDefaultMeta\<lparr>m_title := Some [], m_type := Some ''separator'',
             m_create := Some ''111111'', m_modify := Some ''111111'', m_source := Some [],
             m_icon := Some [], m_comment := Some []\<rparr>)], reads := 2\<rparr>"

text \<open>
  The directory \<^verbatim>\<open>data/A\<close> holds a page that declares the identifier \<^verbatim>\<open>B\<close>, which
  already has an entry that points at the same index file \<^verbatim>\<open>A/index.html\<close>; a third item
  \<^verbatim>\<open>C\<close> follows.
\<close>

definition duplicateExample :: fix_state where
  "duplicateExample =
     \<lparr>metas = [(''A'', getDefaultMeta\<lparr>m_id := Some ''B'', m_index := Some ''A/index.html''\<rparr>),
               (''B'', getDefaultMeta\<lparr>m_index := Some ''A/index.html''\<rparr>),
               (''C'', getDefaultMeta\<lparr>m_index := Some ''C/index.html''\<rparr>)],
      dataDirs = [''A'' \<mapsto> [''A/index.html'' \<mapsto> exampleFile],
                  ''B'' \<mapsto> [''B/index.html'' \<mapsto> exampleFile],
                  ''C'' \<mapsto> [''C/index.html'' \<mapsto> exampleFile]],
      reads = 0\<rparr>"

text \<open>A bookmark that asks for the folder \<^verbatim>\<open>Work\<close>; the table of contents is new.\<close>

definition folderHintExample :: fix_state where
  "folderHintExample =
     \<lparr>metas = [(''item1'', getDefaultMeta\<lparr>m_title := Some ''Page'', m_type := Some ''bookmark'',
                           m_folder := Some ''Work''\<rparr>)],
      dataDirs = Map.empty,
      reads = 0\<rparr>"

text \<open>
  Two entries, the second asking for the folder \<^verbatim>\<open>Work\<close>, and a table of contents that
  lists the first entry, an identifier with no entry, and a key with no entry.
\<close>

definition integrityMetas :: "(string \<times> meta) list" where
  "integrityMetas =
     [(''a'', getDefaultMeta\<lparr>m_title := Some ''A''\<rparr>),
      (''b'', getDefaultMeta\<lparr>m_title := Some ''B'', m_folder := Some ''Work''\<rparr>)]"

definition integrityToc :: "(string \<times> string list) list" where
  "integrityToc = [(''root'', [''a'', ''ghost'']), (''stale'', [''c''])]"

text \<open>One bookmark, which the table of contents that was read lists twice.\<close>

definition listedTwiceExample :: fix_state where
  "listedTwiceExample =
     \<lparr>metas = [(''a'', getDefaultMeta\<lparr>m_title := Some ''A'', m_type := Some ''bookmark''\<rparr>)],
      dataDirs = Map.empty,
      reads = 0\<rparr>"

definition noItemsExample :: fix_state where
  "noItemsExample = \<lparr>metas = [], dataDirs = Map.empty, reads = 0\<rparr>"

text \<open>The state in which the bookmark of \<open>folderHintExample\<close> is added to the table.\<close>

definition folderHintState :: toc_state where
  "folderHintState =
     \<lparr>t_meta = [(''item1'', getDefaultMeta\<lparr>m_title := Some ''Page'', m_type := Some ''bookmark'',
                            m_folder := Some (''Work'' @ [CHR 0x09] @ ''Projects'')\<rparr>)],
      t_toc = initialToc, referredIds = {}, titleIdMap = Map.empty, t_reads = 0\<rparr>"

definition exampleSha :: "string \<Rightarrow> string" where
  "exampleSha s = replicate (length s) (CHR ''h'')"

text \<open>
  A library for the examples: every request is answered with a PNG image whose content
  depends on when the request is made, so that a second request for the same address would
  give another file.
\<close>

definition exampleLib :: iconLib where
  "exampleLib =
     \<lparr>dataUriToFile = (\<lambda>u. None),
      xhr = (\<lambda>n u. Some \<lparr>r_filename = None, r_url = u, r_mime = ''image/png'',
                          r_body = replicate (Suc n) (CHR ''x'')\<rparr>),
      filenameParts = (\<lambda>s. (s, [])),
      mimeExtension = (\<lambda>t. ''png''),
      arraySha1 = exampleSha\<rparr>"

text \<open>
  An item with a relative icon, and two items with the same external icon, the second with
  its index file in a directory.
\<close>

definition iconMetas :: "(string \<times> meta) list" where
  "iconMetas =
     [(''a'', getDefaultMeta\<lparr>m_icon := Some ''favicon.ico''\<rparr>),
      (''b'', getDefaultMeta\<lparr>m_icon := Some ''http://x/i.png''\<rparr>),
      (''c'', getDefaultMeta\<lparr>m_index := Some ''c/index.html'',
                             m_icon := Some ''http://x/i.png''\<rparr>)]"

definition iconFile :: jsfile where
  "iconFile = \<lparr>f_name = ''h.png'', f_type = ''image/png'', f_bytes = ''x''\<rparr>"

definition iconResult :: icon_state where
  "iconResult =
     \<lparr>i_meta =
        [(''a'', getDefaultMeta\<lparr>m_icon := Some ''favicon.ico''\<rparr>),
         (''b'', getDefaultMeta\<lparr>m_icon := Some ''../tree/favicon/h.png''\<rparr>),
         (''c'', getDefaultMeta\<lparr>m_index := Some ''c/index.html'',
                                m_icon := Some ''../../tree/favicon/h.png''\<rparr>)],
      urlAccessMap = [''http://x/i.png'' \<mapsto> Some iconFile],
      fetched = [''http://x/i.png''],
      i_zip = [(''tree/favicon/h.png'', \<lparr>z_dir = False, z_bytes = ''x''\<rparr>)]\<rparr>"

text \<open>
  Old files and a zip for the comparison: the new \<^verbatim>\<open>tree/meta.js\<close> differs from the old one,
  the new \<^verbatim>\<open>tree/toc.js\<close> does not. The hash of the example is the length, in unary.
\<close>

definition diffTree :: "string \<rightharpoonup> jsfile" where
  "diffTree =
     [''tree/meta.js'' \<mapsto>
        \<lparr>f_name = ''meta.js'', f_type = ''application/javascript'', f_bytes = ''OLD''\<rparr>,
      ''tree/toc.js'' \<mapsto>
        \<lparr>f_name = ''toc.js'', f_type = ''application/javascript'', f_bytes = ''TOC''\<rparr>]"

definition diffZip :: zipfile where
  "diffZip =
     [(''tree/meta.js'', \<lparr>z_dir = False, z_bytes = ''NEWER''\<rparr>),
      (''tree/toc.js'', \<lparr>z_dir = False, z_bytes = ''TOC''\<rparr>)]"

text \<open>
  Two old favicons that no entry refers to any more: one with content, one already empty.
\<close>

definition faviconTree :: "string \<rightharpoonup> jsfile" where
  "faviconTree =
     [''tree/favicon/old.ico'' \<mapsto>
        \<lparr>f_name = ''old.ico'', f_type = ''image/x-icon'', f_bytes = ''ICON''\<rparr>,
      ''tree/favicon/gone.ico'' \<mapsto>
        \<lparr>f_name = ''gone.ico'', f_type = ''application/octet-stream'', f_bytes = []\<rparr>]"

section \<open>Theorems\<close>

lemma splitOn_nonempty: "splitOn c s \<noteq> []"
  by (induction s) (auto split: list.splits)

lemma length_splitOn: "length (splitOn c s) = Suc (count_list s c)"
  by (induction s) (auto split: list.splits simp: splitOn_nonempty)

text \<open>
  C5: the index path is the first existing candidate in the order
  \<^verbatim>\<open><id>/index.html\<close>, \<^verbatim>\<open><id>.html\<close>, \<^verbatim>\<open><id>.htm\<close>, \<^verbatim>\<open><id>.xhtml\<close>, \<^verbatim>\<open><id>.xht\<close>,
  \<^verbatim>\<open><id>.maff\<close>, \<^verbatim>\<open><id>.htz\<close>, \<^verbatim>\<open><id>.mht\<close>, \<^verbatim>\<open><id>.epub\<close>, and \<^verbatim>\<open>null\<close> when none
  of them exists.
\<close>

theorem getIndexPath_first_existing:
  "getIndexPath itemFiles ident =
     List.find (\<lambda>p. itemFiles p \<noteq> None) (indexCandidates ident)"
  by (simp add: getIndexPath_def indexCandidates_def)

subsection \<open>The legacy sidecar\<close>

lemma indexDatLine_alt:
  "indexDatLine d m =
     (if tl (splitOn TAB d) \<noteq> [] \<and> hd (splitOn TAB d) \<noteq> ''__proto__''
      then m(hd (splitOn TAB d) \<mapsto> joinWith TAB (tl (splitOn TAB d)))
      else m)"
  by (cases "splitOn TAB d") (simp_all add: indexDatLine_def splitOn_nonempty)

lemma fold_indexDatLine:
  "fold indexDatLine ds m =
     m ++ map_of (rev (map (\<lambda>d. (hd (splitOn TAB d), joinWith TAB (tl (splitOn TAB d))))
                           (filter (\<lambda>d. tl (splitOn TAB d) \<noteq> [] \<and>
                                        hd (splitOn TAB d) \<noteq> ''__proto__'') ds)))"
proof (induction ds arbitrary: m)
  case Nil
  then show ?case by simp
next
  case (Cons d ds)
  then show ?case
    by (simp add: indexDatLine_alt map_add_assoc [symmetric])
qed

text \<open>
  C8, as the code has it: the result is \<^verbatim>\<open>null\<close> exactly when the text has fewer than two
  lines; otherwise it is the mapping that takes, for every line with at least one tab, the
  first tab-separated field to the remaining fields joined by tabs, a later line winning
  over an earlier one. A line without a tab is skipped and defines no key, and neither does
  a line whose first field is \<^verbatim>\<open>__proto__\<close>.
\<close>

theorem parseIndexDat_tabbed_lines:
  "parseIndexDat text =
     (if length (splitOn LF text) < 2 then None
      else Some (map_of (rev (indexDatEntries text))))"
  by (simp add: parseIndexDat_def Let_def fold_indexDatLine indexDatEntries_def)

text \<open>
  The text of the two lines \<^verbatim>\<open>a\<close> and \<^verbatim>\<open>b\<close> is valid, and the mapping returned has no
  key \<^verbatim>\<open>a\<close>, whereas the first field of the first line is \<^verbatim>\<open>a\<close> and its remaining fields
  join to the empty string.
\<close>

theorem parseIndexDat_skips_untabbed_line:
  "parseIndexDat [CHR ''a'', LF, CHR ''b''] \<noteq> None \<and>
   the (parseIndexDat [CHR ''a'', LF, CHR ''b'']) ''a'' = None \<and>
   indexDatClaimed [CHR ''a'', LF, CHR ''b''] ''a'' = Some []"
  by (simp add: parseIndexDat_def indexDatClaimed_def indexDatLine_def)

subsection \<open>The metadata pass\<close>

lemma fixIndex_shape: "\<exists>ix. fixIndex f k m = m\<lparr>m_index := ix\<rparr>"
proof (cases "fixIndex f k m = m")
  case True
  then have "fixIndex f k m = m\<lparr>m_index := m_index m\<rparr>" by simp
  then show ?thesis by blast
next
  case False
  then have "fixIndex f k m = m\<lparr>m_index := getIndexPath f k\<rparr>"
    by (auto simp: fixIndex_def split: if_splits)
  then show ?thesis by blast
qed

lemma fixRest_Next:
  assumes "fixRest env st live k m = Next st'"
  shows "map_of (metas st') = (map_of (metas st))(k := None) \<or>
         (live \<and> (\<exists>ix n. map_of (metas st') =
                     (map_of (metas st))(k \<mapsto> fallbackFields env n k (m\<lparr>m_index := ix\<rparr>)))) \<or>
         (\<not> live \<and> map_of (metas st') = map_of (metas st))"
proof (cases "orEmpty (m_type m) \<notin> {''folder'', ''separator'', ''bookmark''} \<and> dataDirs st k = None")
  case True
  with assms show ?thesis
    by (auto simp: fixRest_def delete_conv')
next
  case False
  define m1 where "m1 = (if orEmpty (m_type m) \<notin> {''folder'', ''separator'', ''bookmark''}
                     then fixIndex (the (dataDirs st k)) k m else m)"
  obtain ix where ix: "m1 = m\<lparr>m_index := ix\<rparr>"
  proof (cases "orEmpty (m_type m) \<notin> {''folder'', ''separator'', ''bookmark''}")
    case True
    then show ?thesis using fixIndex_shape [of "the (dataDirs st k)" k m] that m1_def by auto
  next
    case False
    then have "m1 = m\<lparr>m_index := m_index m\<rparr>" by (simp add: m1_def)
    then show ?thesis using that by blast
  qed
  from False assms have st': "st' = st\<lparr>metas := (if live then AList.update k (fallbackFields env (reads st) k m1) (metas st) else metas st),
                     reads := fallbackReads (reads st) m1\<rparr>"
    unfolding fixRest_def m1_def Let_def by (auto split: if_splits)
  show ?thesis
  proof (cases live)
    case True
    with st' ix have "map_of (metas st') = (map_of (metas st))(k \<mapsto> fallbackFields env (reads st) k (m\<lparr>m_index := ix\<rparr>))"
      by (simp add: update_conv')
    with True show ?thesis by blast
  next
    case False
    with st' show ?thesis by simp
  qed
qed

lemma fixRest_total: "\<exists>st'. fixRest env st live k m = Next st'"
  by (simp add: fixRest_def Let_def)

lemma occupantIndex_None:
  "occupantIndex ms k = None \<longleftrightarrow> map_of ms k = None \<and> \<not> inherited k"
  by (simp add: occupantIndex_def split: option.splits)

lemma fixItem_Next:
  assumes "map_of (metas st) k = Some m0" and "fixItem env st k = Next st'"
  shows "\<exists>k'. (k' = k \<or> (m_id m0 = Some k' \<and> map_of (metas st) k' = None)) \<and>
           (map_of (metas st') = (map_of (metas st))(k := None, k' := None) \<or>
            (\<exists>ix n. map_of (metas st') =
               ((map_of (metas st))(k := None))(k' \<mapsto> fallbackFields env n k' (m0\<lparr>m_index := ix\<rparr>))))"
proof (cases "truthy (m_id m0) \<and> m_id m0 \<noteq> Some k")
  case False
  with assms have "fixRest env st True k m0 = Next st'"
    by (auto simp: fixItem_def)
  from fixRest_Next [OF this] show ?thesis
    by (intro exI [of _ k]) auto
next
  case True
  then obtain newId where newId: "m_id m0 = Some newId" "newId \<noteq> k" "orEmpty (m_id m0) = newId"
    by (cases "m_id m0") (auto simp: truthy_def orEmpty_def)
  show ?thesis
  proof (cases "occupantIndex (metas st) newId")
    case None
    then have absent: "map_of (metas st) newId = None"
      by (simp add: occupantIndex_None)
    let ?st1 = "st\<lparr>metas := AList.update newId m0 (AList.delete k (metas st)),
                     dataDirs := moveDataDir k newId (dataDirs st)\<rparr>"
    from assms True newId None have "fixRest env ?st1 True newId m0 = Next st'"
      by (simp add: fixItem_def Let_def)
    from fixRest_Next [OF this] absent newId show ?thesis
      by (intro exI [of _ newId]) (auto simp: update_conv' delete_conv' fun_upd_twist)
  next
    case (Some otherIndex)
    let ?st1 = "st\<lparr>metas := AList.delete k (metas st)\<rparr>"
    from assms True newId Some have "fixRest env ?st1 False k m0 = Next st'"
      by (auto simp: fixItem_def Let_def split: outer_binding.splits if_splits)
    from fixRest_Next [OF this] show ?thesis
      by (intro exI [of _ k]) (auto simp: delete_conv')
  qed
qed

lemma fixItem_total:
  assumes "map_of (metas st) k = Some m0"
    and "truthy (m_id m0) \<and> m_id m0 \<noteq> Some k \<longrightarrow> occupantIndex (metas st) (orEmpty (m_id m0)) = None"
  shows "\<exists>st'. fixItem env st k = Next st'"
proof (cases "truthy (m_id m0) \<and> m_id m0 \<noteq> Some k")
  case False
  with assms(1) have "fixItem env st k = fixRest env st True k m0"
    by (auto simp: fixItem_def)
  with fixRest_total show ?thesis by simp
next
  case True
  with assms have "fixItem env st k =
      fixRest env (st\<lparr>metas := AList.update (orEmpty (m_id m0)) m0 (AList.delete k (metas st)),
                     dataDirs := moveDataDir k (orEmpty (m_id m0)) (dataDirs st)\<rparr>)
        True (orEmpty (m_id m0)) m0"
    by (simp add: fixItem_def Let_def)
  with fixRest_total show ?thesis by simp
qed

lemma fixLoop_runs:
  assumes clash: "noIdClash ms0"
  shows "distinct ks \<Longrightarrow>
    \<forall>k\<in>set ks. map_of (metas st) k = map_of ms0 k \<and> map_of ms0 k \<noteq> None \<Longrightarrow>
    \<forall>j. map_of (metas st) j \<noteq> None \<longrightarrow>
        map_of ms0 j \<noteq> None \<or> (\<exists>k0 m0. k0 \<notin> set ks \<and> map_of ms0 k0 = Some m0 \<and> m_id m0 = Some j) \<Longrightarrow>
    \<forall>k m'. k \<notin> set ks \<longrightarrow> map_of (metas st) k = Some m' \<longrightarrow>
           (\<exists>k0 m0 ix n. map_of ms0 k0 = Some m0 \<and> (k0 = k \<or> m_id m0 = Some k) \<and>
              m' = fallbackFields env n k (m0\<lparr>m_index := ix\<rparr>)) \<Longrightarrow>
    \<exists>st'. fixLoop env st ks = Next st' \<and>
      (\<forall>k m'. map_of (metas st') k = Some m' \<longrightarrow>
           (\<exists>k0 m0 ix n. map_of ms0 k0 = Some m0 \<and> (k0 = k \<or> m_id m0 = Some k) \<and>
              m' = fallbackFields env n k (m0\<lparr>m_index := ix\<rparr>)))"
proof (induction ks arbitrary: st)
  case Nil
  then show ?case by simp
next
  case (Cons a ks)
  from Cons.prems(2) obtain m0 where m0: "map_of (metas st) a = Some m0" "map_of ms0 a = Some m0"
    by (metis list.set_intros(1) not_None_eq)
  have a_ks: "a \<notin> set ks" and dks: "distinct ks" using Cons.prems(1) by simp_all
  have free: "occupantIndex (metas st) (orEmpty (m_id m0)) = None"
    if r: "truthy (m_id m0)" "m_id m0 \<noteq> Some a"
  proof -
    let ?n = "orEmpty (m_id m0)"
    from r(1) have idn: "m_id m0 = Some ?n"
      by (cases "m_id m0") (auto simp: truthy_def orEmpty_def)
    from clash m0(2) r have c: "map_of ms0 ?n = None" "\<not> inherited ?n"
      "\<forall>k' m'. k' \<noteq> a \<longrightarrow> map_of ms0 k' = Some m' \<longrightarrow> m_id m' \<noteq> m_id m0"
      unfolding noIdClash_def by blast+
    have "map_of (metas st) ?n = None"
    proof (rule ccontr)
      assume "map_of (metas st) ?n \<noteq> None"
      with Cons.prems(3) c(1) obtain k0 m1 where
        k0: "k0 \<notin> set (a # ks)" "map_of ms0 k0 = Some m1" "m_id m1 = Some ?n"
        by blast
      from k0(1) have "k0 \<noteq> a" by simp
      with c(3) k0(2) have "m_id m1 \<noteq> m_id m0" by blast
      with k0(3) idn show False by simp
    qed
    with c(2) show ?thesis by (simp add: occupantIndex_None)
  qed
  from fixItem_total [OF m0(1), of env] free obtain st1 where st1: "fixItem env st a = Next st1"
    by blast
  from fixItem_Next [OF m0(1) st1] obtain k' where
    k': "k' = a \<or> (m_id m0 = Some k' \<and> map_of (metas st) k' = None)"
    and eff: "map_of (metas st1) = (map_of (metas st))(a := None, k' := None) \<or>
            (\<exists>ix n. map_of (metas st1) =
               ((map_of (metas st))(a := None))(k' \<mapsto> fallbackFields env n k' (m0\<lparr>m_index := ix\<rparr>)))"
    by blast
  have k'ks: "k' \<notin> set ks"
    using k' Cons.prems(2) a_ks by (metis list.set_intros(2))
  have keys1: "map_of (metas st) j \<noteq> None \<or> j = k'" if "map_of (metas st1) j \<noteq> None" for j
    using eff that by (auto split: if_splits)
  have p1: "\<forall>k\<in>set ks. map_of (metas st1) k = map_of ms0 k \<and> map_of ms0 k \<noteq> None"
    using eff Cons.prems(2) k'ks a_ks by auto
  have p2: "\<forall>j. map_of (metas st1) j \<noteq> None \<longrightarrow>
        map_of ms0 j \<noteq> None \<or> (\<exists>k0 m0. k0 \<notin> set ks \<and> map_of ms0 k0 = Some m0 \<and> m_id m0 = Some j)"
  proof (intro allI impI)
    fix j assume j: "map_of (metas st1) j \<noteq> None"
    show "map_of ms0 j \<noteq> None \<or> (\<exists>k0 m0. k0 \<notin> set ks \<and> map_of ms0 k0 = Some m0 \<and> m_id m0 = Some j)"
    proof (cases "j = k'")
      case True
      with k' m0(2) a_ks show ?thesis by auto
    next
      case False
      with keys1 [OF j] have "map_of (metas st) j \<noteq> None" by simp
      with Cons.prems(3) show ?thesis by auto
    qed
  qed
  have p3: "\<forall>k m'. k \<notin> set ks \<longrightarrow> map_of (metas st1) k = Some m' \<longrightarrow>
           (\<exists>k0 m0 ix n. map_of ms0 k0 = Some m0 \<and> (k0 = k \<or> m_id m0 = Some k) \<and>
              m' = fallbackFields env n k (m0\<lparr>m_index := ix\<rparr>))"
  proof (intro allI impI)
    fix k m'
    assume k: "k \<notin> set ks" and m': "map_of (metas st1) k = Some m'"
    show "\<exists>k0 m0 ix n. map_of ms0 k0 = Some m0 \<and> (k0 = k \<or> m_id m0 = Some k) \<and>
              m' = fallbackFields env n k (m0\<lparr>m_index := ix\<rparr>)"
    proof (cases "k = k'")
      case True
      with eff m' obtain ix n where "m' = fallbackFields env n k' (m0\<lparr>m_index := ix\<rparr>)"
        by auto
      with True k' m0(2) show ?thesis by blast
    next
      case False
      with eff m' have "k \<noteq> a" and "map_of (metas st) k = Some m'"
        by (auto split: if_splits)
      with k Cons.prems(4) show ?thesis by simp
    qed
  qed
  from Cons.IH [OF dks p1 p2 p3] st1 show ?case by simp
qed


text \<open>
  C7, as the code has it: when no entry reaches the duplicate-id test of line 770, the
  metadata pass runs to its end, and every entry it leaves comes from an entry \<open>m0\<close> of the
  input, kept under its own key or moved to the identifier it declares, and has passed the
  fallbacks: empty type, source, comment and icon are the empty string; an empty title is
  the file name derived from the source, else the identifier under which the entry is
  stored, else (for a separator) the empty string; an empty modify is a reading of the
  current time; an empty create is the modify value just set.
\<close>

theorem fixMeta_field_fallback:
  assumes "distinct (map fst (metas st))" and "noIdClash (metas st)"
  shows "\<exists>st'. fixMeta env st = Next st' \<and>
    (\<forall>k m'. map_of (metas st') k = Some m' \<longrightarrow>
      (\<exists>k0 m0 n. map_of (metas st) k0 = Some m0 \<and> (k0 = k \<or> m_id m0 = Some k) \<and>
         m_type m' = Some (orEmpty (m_type m0)) \<and>
         m_source m' = Some (orEmpty (m_source m0)) \<and>
         m_comment m' = Some (orEmpty (m_comment m0)) \<and>
         m_icon m' = Some (orEmpty (m_icon m0)) \<and>
         m_title m' =
           (if truthy (m_title m0) then m_title m0
            else if orEmpty (m_source m0) \<noteq> [] \<and> urlToFilename env (orEmpty (m_source m0)) \<noteq> []
                 then Some (urlToFilename env (orEmpty (m_source m0)))
            else if orEmpty (m_type m0) \<noteq> ''separator'' then Some k
            else Some []) \<and>
         m_modify m' =
           (if truthy (m_modify m0) then m_modify m0 else Some (dateToId env (clock env n))) \<and>
         m_create m' = (if truthy (m_create m0) then m_create m0 else m_modify m')))"
proof -
  have "\<exists>st'. fixLoop env st (map fst (metas st)) = Next st' \<and>
      (\<forall>k m'. map_of (metas st') k = Some m' \<longrightarrow>
           (\<exists>k0 m0 ix n. map_of (metas st) k0 = Some m0 \<and> (k0 = k \<or> m_id m0 = Some k) \<and>
              m' = fallbackFields env n k (m0\<lparr>m_index := ix\<rparr>)))"
  proof (rule fixLoop_runs [OF assms(2) assms(1)])
    show "\<forall>k\<in>set (map fst (metas st)). map_of (metas st) k = map_of (metas st) k \<and> map_of (metas st) k \<noteq> None"
      by (auto simp: map_of_eq_None_iff)
    show "\<forall>j. map_of (metas st) j \<noteq> None \<longrightarrow> map_of (metas st) j \<noteq> None \<or>
        (\<exists>k0 m0. k0 \<notin> set (map fst (metas st)) \<and> map_of (metas st) k0 = Some m0 \<and> m_id m0 = Some j)"
      by simp
    show "\<forall>k m'. k \<notin> set (map fst (metas st)) \<longrightarrow> map_of (metas st) k = Some m' \<longrightarrow>
           (\<exists>k0 m0 ix n. map_of (metas st) k0 = Some m0 \<and> (k0 = k \<or> m_id m0 = Some k) \<and>
              m' = fallbackFields env n k (m0\<lparr>m_index := ix\<rparr>))"
      by (metis map_of_eq_None_iff option.distinct(1) set_map)
  qed
  then obtain st' where run: "fixMeta env st = Next st'"
    and all: "\<forall>k m'. map_of (metas st') k = Some m' \<longrightarrow>
           (\<exists>k0 m0 ix n. map_of (metas st) k0 = Some m0 \<and> (k0 = k \<or> m_id m0 = Some k) \<and>
              m' = fallbackFields env n k (m0\<lparr>m_index := ix\<rparr>))"
    by (auto simp: fixMeta_def)
  have "\<exists>k0 m0 n. map_of (metas st) k0 = Some m0 \<and> (k0 = k \<or> m_id m0 = Some k) \<and>
         m_type m' = Some (orEmpty (m_type m0)) \<and>
         m_source m' = Some (orEmpty (m_source m0)) \<and>
         m_comment m' = Some (orEmpty (m_comment m0)) \<and>
         m_icon m' = Some (orEmpty (m_icon m0)) \<and>
         m_title m' =
           (if truthy (m_title m0) then m_title m0
            else if orEmpty (m_source m0) \<noteq> [] \<and> urlToFilename env (orEmpty (m_source m0)) \<noteq> []
                 then Some (urlToFilename env (orEmpty (m_source m0)))
            else if orEmpty (m_type m0) \<noteq> ''separator'' then Some k
            else Some []) \<and>
         m_modify m' =
           (if truthy (m_modify m0) then m_modify m0 else Some (dateToId env (clock env n))) \<and>
         m_create m' = (if truthy (m_create m0) then m_create m0 else m_modify m')"
    if "map_of (metas st') k = Some m'" for k m'
  proof -
    from all that obtain k0 m0 ix n where
      *: "map_of (metas st) k0 = Some m0" "k0 = k \<or> m_id m0 = Some k"
         "m' = fallbackFields env n k (m0\<lparr>m_index := ix\<rparr>)"
      by blast
    show ?thesis
      apply (rule exI [of _ k0], rule exI [of _ m0], rule exI [of _ n])
      using * by (simp add: fallbackFields_def fallbackTitle_def Let_def js_or_def)
  qed
  with run show ?thesis by blast
qed

theorem fixMeta_field_fallback_witness:
  "distinct (map fst (metas fallbackExample)) \<and>
   noIdClash (metas fallbackExample) \<and>
   fixMeta exampleEnv fallbackExample = Next fallbackResult \<and>
   map_of (metas fallbackResult) ''a'' = Some fallbackEntry \<and>
   (\<exists>k0 m0 n. map_of (metas fallbackExample) k0 = Some m0 \<and>
     (k0 = ''a'' \<or> m_id m0 = Some ''a'') \<and>
     m_type fallbackEntry = Some (orEmpty (m_type m0)) \<and>
     m_source fallbackEntry = Some (orEmpty (m_source m0)) \<and>
     m_comment fallbackEntry = Some (orEmpty (m_comment m0)) \<and>
     m_icon fallbackEntry = Some (orEmpty (m_icon m0)) \<and>
     m_title fallbackEntry =
       (if truthy (m_title m0) then m_title m0
        else if orEmpty (m_source m0) \<noteq> [] \<and>
                urlToFilename exampleEnv (orEmpty (m_source m0)) \<noteq> []
             then Some (urlToFilename exampleEnv (orEmpty (m_source m0)))
        else if orEmpty (m_type m0) \<noteq> ''separator'' then Some ''a''
        else Some []) \<and>
     m_modify fallbackEntry =
       (if truthy (m_modify m0) then m_modify m0
        else Some (dateToId exampleEnv (clock exampleEnv n))) \<and>
     m_create fallbackEntry =
       (if truthy (m_create m0) then m_create m0 else m_modify fallbackEntry))"
proof -
  have h1: "distinct (map fst (metas fallbackExample))"
    by (simp add: fallbackExample_def)
  have h2: "noIdClash (metas fallbackExample)"
    by (simp add: noIdClash_def fallbackExample_def getDefaultMeta_def truthy_def inherited_def)
  have h3: "fixMeta exampleEnv fallbackExample = Next fallbackResult"
    by (simp add: fixMeta_def fixItem_def fixRest_def fixIndex_def getIndexPath_def
        fallbackFields_def fallbackTitle_def fallbackReads_def exampleEnv_def
        fallbackExample_def fallbackResult_def fallbackEntry_def getDefaultMeta_def
        truthy_def orEmpty_def js_or_def Let_def eval_nat_numeral)
  have h4: "map_of (metas fallbackResult) ''a'' = Some fallbackEntry"
    by (simp add: fallbackResult_def)
  from fixMeta_field_fallback [OF h1 h2, of exampleEnv] h3 h4 h1 h2 show ?thesis
    by auto
qed

text \<open>
  Two runs of the callback of lines 751 to 911 that end with an entry that has not passed
  the fallbacks. In the first, adding the item to the table of contents makes the folder
  \<^verbatim>\<open>Work\<close>, whose entry has a type, a title and a create value, and no source, comment
  or modify value. In the second, line 777 returns from the callback, and the entry of
  \<^verbatim>\<open>C\<close> is as it was read.
\<close>

theorem entries_without_fallback:
  "fixMetaAndToc exampleEnv folderHintExample initialToc =
     Some (Inr ([(''item1'', getDefaultMeta\<lparr>m_title := Some ''Page'', m_type := Some ''bookmark'',
                   m_create := Some ''11111'', m_modify := Some ''11111'', m_source := Some [],
                   m_icon := Some [], m_comment := Some []\<rparr>),
                 (''111111'', folderMeta ''Work'' ''111111'')],
                [(''root'', [''111111'']), (''111111'', [''item1''])])) \<and>
   m_source (folderMeta ''Work'' ''111111'') = None \<and>
   m_comment (folderMeta ''Work'' ''111111'') = None \<and>
   m_modify (folderMeta ''Work'' ''111111'') = None \<and>
   fixMetaAndToc (exampleEnv\<lparr>outerIndex := Bound (Some ''A/index.html'')\<rparr>) duplicateExample
       initialToc =
     Some (Inr (metas duplicateExample, initialToc)) \<and>
   map_of (metas duplicateExample) ''C'' = Some (getDefaultMeta\<lparr>m_index := Some ''C/index.html''\<rparr>) \<and>
   m_title (getDefaultMeta\<lparr>m_index := Some ''C/index.html''\<rparr>) = None"
proof -
  have 1: "fixMeta exampleEnv folderHintExample =
      Next (folderHintExample\<lparr>metas :=
        [(''item1'', getDefaultMeta\<lparr>m_title := Some ''Page'', m_type := Some ''bookmark'',
                   m_create := Some ''11111'', m_modify := Some ''11111'', m_source := Some [],
                   m_icon := Some [], m_comment := Some [], m_folder := Some ''Work''\<rparr>)],
        reads := Suc 0\<rparr>)"
    by (simp add: fixMeta_def fixItem_def fixRest_def fallbackFields_def fallbackTitle_def
        fallbackReads_def exampleEnv_def folderHintExample_def getDefaultMeta_def
        truthy_def orEmpty_def js_or_def Let_def eval_nat_numeral)
  have 2: "fixToc exampleEnv
        [(''item1'', getDefaultMeta\<lparr>m_title := Some ''Page'', m_type := Some ''bookmark'',
                   m_create := Some ''11111'', m_modify := Some ''11111'', m_source := Some [],
                   m_icon := Some [], m_comment := Some [], m_folder := Some ''Work''\<rparr>)]
        initialToc (Suc 0) =
      Some (Inr \<lparr>t_meta =
        [(''item1'', getDefaultMeta\<lparr>m_title := Some ''Page'', m_type := Some ''bookmark'',
                   m_create := Some ''11111'', m_modify := Some ''11111'', m_source := Some [],
                   m_icon := Some [], m_comment := Some []\<rparr>),
         (''111111'', folderMeta ''Work'' ''111111'')],
        t_toc = [(''root'', [''111111'']), (''111111'', [''item1''])],
        referredIds = {},
        titleIdMap = [Some ''Work'' \<mapsto> ''111111'', Some ''Page'' \<mapsto> ''item1''],
        t_reads = 2\<rparr>)"
    by (simp add: fixToc_def startToc_def initialToc_def pruneToc_def pruneKey_def
        addNewItems_def addItem_def insertToToc_def insertSegment_def linkedFolder_def
        generateFolder_def getUniqueId_def pushChild_def ensureToc_def stripTransient_def
        setTitle_def sortToken_def reserved_def inherited_def folderSep_def
        exampleEnv_def getDefaultMeta_def folderMeta_def truthy_def orEmpty_def Let_def
        eval_nat_numeral)
  have 3: "fixMeta (exampleEnv\<lparr>outerIndex := Bound (Some ''A/index.html'')\<rparr>) duplicateExample =
      Return (duplicateExample\<lparr>dataDirs := moveDataDir ''A'' ''B'' (dataDirs duplicateExample)\<rparr>)"
    by (simp add: fixMeta_def fixItem_def occupantIndex_def duplicateExample_def
        getDefaultMeta_def truthy_def orEmpty_def Let_def)
  have a: "fixMetaAndToc exampleEnv folderHintExample initialToc =
     Some (Inr ([(''item1'', getDefaultMeta\<lparr>m_title := Some ''Page'', m_type := Some ''bookmark'',
                   m_create := Some ''11111'', m_modify := Some ''11111'', m_source := Some [],
                   m_icon := Some [], m_comment := Some []\<rparr>),
                 (''111111'', folderMeta ''Work'' ''111111'')],
                [(''root'', [''111111'']), (''111111'', [''item1''])]))"
    by (simp add: fixMetaAndToc_def 1 2)
  have b: "fixMetaAndToc (exampleEnv\<lparr>outerIndex := Bound (Some ''A/index.html'')\<rparr>)
       duplicateExample initialToc =
     Some (Inr (metas duplicateExample, initialToc))"
    by (simp add: fixMetaAndToc_def 3)
  have c: "m_source (folderMeta ''Work'' ''111111'') = None"
    "m_comment (folderMeta ''Work'' ''111111'') = None"
    "m_modify (folderMeta ''Work'' ''111111'') = None"
    by (simp_all add: folderMeta_def getDefaultMeta_def)
  have d: "map_of (metas duplicateExample) ''C'' =
      Some (getDefaultMeta\<lparr>m_index := Some ''C/index.html''\<rparr>)"
    "m_title (getDefaultMeta\<lparr>m_index := Some ''C/index.html''\<rparr>) = None"
    by (simp_all add: duplicateExample_def getDefaultMeta_def)
  from a b c d show ?thesis by blast
qed

subsection \<open>The duplicate-id branch\<close>

text \<open>
  C2 (the code at a failing input): the page stored under \<^verbatim>\<open>A\<close> declares the identifier
  \<^verbatim>\<open>B\<close>, whose entry points at the same index file. Line 770 reads the identifier
  \<^verbatim>\<open>index\<close>. Where it is unbound the pass raises a ReferenceError; where it is bound to
  that index file, line 777 moves the data-file grouping and returns from the whole
  callback. Either way the item \<^verbatim>\<open>C\<close> that follows is never processed: its title is still
  undefined, and the callback leaves the table of contents as it was read, with the
  reference \<^verbatim>\<open>ghost\<close> that has no entry.
\<close>

theorem fixMeta_duplicate_id_stops_pass:
  "map_of (metas duplicateExample) ''A'' =
     Some (getDefaultMeta\<lparr>m_id := Some ''B'', m_index := Some ''A/index.html''\<rparr>) \<and>
   map_of (metas duplicateExample) ''B'' = Some (getDefaultMeta\<lparr>m_index := Some ''A/index.html''\<rparr>) \<and>
   fixMeta (env\<lparr>outerIndex := Unbound\<rparr>) duplicateExample = Throw ReferenceError \<and>
   fixMeta (env\<lparr>outerIndex := Bound (Some ''A/index.html'')\<rparr>) duplicateExample =
     Return (duplicateExample\<lparr>dataDirs := moveDataDir ''A'' ''B'' (dataDirs duplicateExample)\<rparr>) \<and>
   map_of (metas duplicateExample) ''C'' = Some (getDefaultMeta\<lparr>m_index := Some ''C/index.html''\<rparr>) \<and>
   m_title (getDefaultMeta\<lparr>m_index := Some ''C/index.html''\<rparr>) = None \<and>
   fixMetaAndToc (env\<lparr>outerIndex := Bound (Some ''A/index.html'')\<rparr>) duplicateExample
       [(''root'', [''ghost''])] =
     Some (Inr (metas duplicateExample, [(''root'', [''ghost''])])) \<and>
   fixMetaAndToc (env\<lparr>outerIndex := Unbound\<rparr>) duplicateExample [(''root'', [''ghost''])] =
     Some (Inl ReferenceError)"
  by (simp add: fixMetaAndToc_def fixMeta_def fixItem_def occupantIndex_def
      duplicateExample_def getDefaultMeta_def truthy_def orEmpty_def Let_def)

subsection \<open>Pruning the table of contents\<close>

lemma pruneKey_frame [simp]:
  "t_meta (pruneKey k st) = t_meta st" "t_reads (pruneKey k st) = t_reads st"
  by (auto simp: pruneKey_def Let_def split: option.splits)

lemma pruneKey_toc:
  "map_of (t_toc (pruneKey k st)) =
     (map_of (t_toc st))(k := (case map_of (t_toc st) k of
                                 None \<Rightarrow> None
                               | Some cs \<Rightarrow> prunedChildren (t_meta st) k cs))"
  by (auto simp: pruneKey_def prunedChildren_def Let_def update_conv' delete_conv'
      split: option.splits)

lemma prunedChildren_idem:
  "prunedChildren ms k cs = Some kept \<Longrightarrow> prunedChildren ms k kept = Some kept"
  by (auto simp: prunedChildren_def split: if_splits)

lemma fold_pruneKey_frame [simp]:
  "t_meta (fold pruneKey ks st) = t_meta st" "t_reads (fold pruneKey ks st) = t_reads st"
  by (induction ks arbitrary: st) auto

lemma fold_pruneKey_toc:
  "map_of (t_toc (fold pruneKey ks st)) k =
     (if k \<in> set ks
      then (case map_of (t_toc st) k of None \<Rightarrow> None | Some cs \<Rightarrow> prunedChildren (t_meta st) k cs)
      else map_of (t_toc st) k)"
proof (induction ks arbitrary: st)
  case Nil
  then show ?case by simp
next
  case (Cons a ks)
  show ?case
    by (auto simp: Cons.IH pruneKey_toc prunedChildren_idem split: option.splits)
qed

lemma pruneToc_toc:
  "map_of (t_toc (pruneToc st)) k =
     (case map_of (t_toc st) k of None \<Rightarrow> None | Some cs \<Rightarrow> prunedChildren (t_meta st) k cs)"
  by (auto simp: pruneToc_def fold_pruneKey_toc map_of_eq_None_iff split: option.splits
      dest: map_of_SomeD) (metis domI dom_map_of_conv_image_fst set_map)+


lemma pruneKey_referred:
  "referredIds (pruneKey k st) =
     referredIds st \<union>
     (case map_of (t_toc (pruneKey k st)) k of None \<Rightarrow> {} | Some cs \<Rightarrow> set cs)"
  by (auto simp: pruneKey_def Let_def update_conv' delete_conv' split: option.splits)

lemma fold_pruneKey_referred:
  "referredIds (fold pruneKey ks st) =
     referredIds st \<union>
     {c. \<exists>k cs. k \<in> set ks \<and> map_of (t_toc (fold pruneKey ks st)) k = Some cs \<and> c \<in> set cs}"
proof (induction ks arbitrary: st)
  case Nil
  then show ?case by simp
next
  case (Cons a ks)
  have a: "map_of (t_toc (fold pruneKey ks (pruneKey a st))) a = map_of (t_toc (pruneKey a st)) a"
    by (auto simp: fold_pruneKey_toc pruneKey_toc prunedChildren_idem split: option.splits)
  show ?case
    unfolding fold_simps Cons.IH pruneKey_referred [of a st]
    using a by (auto split: option.splits)
qed

lemma pruneToc_referred:
  assumes "referredIds st = {}"
  shows "referredIds (pruneToc st) = tocChildren (t_toc (pruneToc st))"
proof -
  have keys: "k \<in> set (map fst (t_toc st))" if "map_of (t_toc (pruneToc st)) k = Some cs" for k cs
  proof -
    from that have "map_of (t_toc st) k \<noteq> None"
      by (auto simp: pruneToc_toc split: option.splits)
    then show ?thesis
      by (simp add: map_of_eq_None_iff)
  qed
  have "referredIds (pruneToc st) =
      {c. \<exists>k cs. k \<in> set (map fst (t_toc st)) \<and> map_of (t_toc (pruneToc st)) k = Some cs \<and> c \<in> set cs}"
    using fold_pruneKey_referred [of "map fst (t_toc st)" st] assms
    by (simp add: pruneToc_def)
  also have "\<dots> = tocChildren (t_toc (pruneToc st))"
    unfolding tocChildren_def using keys by blast
  finally show ?thesis .
qed

lemma fold_setTitle:
  "fold (setTitle ms) cs tm t = Some f \<Longrightarrow>
     tm t = Some f \<or> (\<exists>m. map_of ms f = Some m \<and> m_title m = t) \<or>
     (map_of ms f = None \<and> inherited f \<and> t = None)"
proof (induction cs arbitrary: tm)
  case Nil
  then show ?case by simp
next
  case (Cons c cs)
  from Cons.prems have "fold (setTitle ms) cs (setTitle ms c tm) t = Some f" by simp
  from Cons.IH [OF this] show ?case
    by (auto simp: setTitle_def split: option.splits if_splits)
qed

lemma pruneKey_titles:
  "titleIdMap (pruneKey k st) t = Some f \<Longrightarrow>
     titleIdMap st t = Some f \<or> (\<exists>m. map_of (t_meta st) f = Some m \<and> m_title m = t) \<or>
     (map_of (t_meta st) f = None \<and> inherited f \<and> t = None)"
  by (auto simp: pruneKey_def Let_def split: option.splits if_splits dest: fold_setTitle)

lemma fold_pruneKey_titles:
  "titleIdMap (fold pruneKey ks st) t = Some f \<Longrightarrow>
     titleIdMap st t = Some f \<or> (\<exists>m. map_of (t_meta st) f = Some m \<and> m_title m = t) \<or>
     (map_of (t_meta st) f = None \<and> inherited f \<and> t = None)"
proof (induction ks arbitrary: st)
  case Nil
  then show ?case by simp
next
  case (Cons a ks)
  from Cons.IH [of "pruneKey a st"] Cons.prems show ?case
    by (auto dest: pruneKey_titles)
qed

lemma pruneToc_titlesOk:
  assumes "titleIdMap st = Map.empty"
  shows "titlesOk (pruneToc st)"
  unfolding titlesOk_def
proof (intro allI impI)
  fix t f assume "titleIdMap (pruneToc st) t = Some f"
  then have "titleIdMap (fold pruneKey (map fst (t_toc st)) st) t = Some f"
    by (simp add: pruneToc_def)
  from fold_pruneKey_titles [OF this] assms
  show "(\<exists>m. map_of (t_meta (pruneToc st)) f = Some m \<and> m_title m = t) \<or>
        (map_of (t_meta (pruneToc st)) f = None \<and> inherited f \<and> t = None)"
    by (simp add: pruneToc_def)
qed

lemma pruneToc_frame [simp]:
  "t_meta (pruneToc st) = t_meta st" "t_reads (pruneToc st) = t_reads st"
  by (simp_all add: pruneToc_def)

lemma pruneToc_tocInv:
  "map_of (t_toc st) ''root'' \<noteq> None \<Longrightarrow>
   \<forall>k. map_of (t_meta st) k \<noteq> None \<longrightarrow> \<not> inherited k \<Longrightarrow> tocInv p (pruneToc st)"
  unfolding tocInv_def
  by (auto simp: pruneToc_toc prunedChildren_def keepRef_def reserved_def
      split: option.splits if_splits)


subsection \<open>Fresh identifiers\<close>

lemma finite_inherited: "finite {i. inherited i}"
  unfolding inherited_def Collect_mem_eq by (rule finite_set)

lemma uniqueIdLoop_returns:
  assumes "inj toId" and "finite {i. used i}"
  shows "\<exists>n. uniqueIdLoop toId used v = Some (toId (Suc (v + n))) \<and>
             \<not> used (toId (Suc (v + n))) \<and> (\<forall>j<n. used (toId (Suc (v + j))))"
proof -
  have fin: "finite {w. v < w \<and> used (toId w)}" for v
  proof -
    have "finite (toId -` {i. used i})"
      using assms(2) assms(1) by (rule finite_vimageI)
    then show ?thesis
      by (rule rev_finite_subset) auto
  qed
  show ?thesis
  proof (induction "card {w. v < w \<and> used (toId w)}" arbitrary: v rule: less_induct)
    case less
    show ?case
    proof (cases "used (toId (Suc v))")
      case False
      then have "uniqueIdLoop toId used v = Some (toId (Suc v))"
        by (subst uniqueIdLoop.simps) simp
      with False show ?thesis
        by (intro exI [of _ 0]) simp
    next
      case True
      have "{w. Suc v < w \<and> used (toId w)} \<subset> {w. v < w \<and> used (toId w)}"
        using True by auto
      then have "card {w. Suc v < w \<and> used (toId w)} < card {w. v < w \<and> used (toId w)}"
        using fin by (simp add: psubset_card_mono)
      from less [OF this] obtain n where
        n: "uniqueIdLoop toId used (Suc v) = Some (toId (Suc (Suc v + n)))"
           "\<not> used (toId (Suc (Suc v + n)))" "\<forall>j<n. used (toId (Suc (Suc v + j)))"
        by blast
      have "uniqueIdLoop toId used v = Some (toId (Suc (v + Suc n)))"
        using True n(1) by (subst uniqueIdLoop.simps) simp
      moreover have "\<not> used (toId (Suc (v + Suc n)))" using n(2) by simp
      moreover have "\<forall>j<Suc n. used (toId (Suc (v + j)))"
      proof (intro allI impI)
        fix j assume "j < Suc n"
        then show "used (toId (Suc (v + j)))"
          using True n(3) by (cases j) auto
      qed
      ultimately show ?thesis by blast
    qed
  qed
qed

lemma getUniqueId_returns:
  assumes "idsOk env"
  shows "\<exists>n. getUniqueId env (dateToId env t) ms = Some (Inr (dateToId env (t + n))) \<and>
             map_of ms (dateToId env (t + n)) = None \<and> \<not> inherited (dateToId env (t + n)) \<and>
             (\<forall>j<n. map_of ms (dateToId env (t + j)) \<noteq> None \<or> inherited (dateToId env (t + j)))"
proof (cases "map_of ms (dateToId env t) = None \<and> \<not> inherited (dateToId env t)")
  case True
  then show ?thesis
    by (intro exI [of _ 0]) (simp add: getUniqueId_def)
next
  case False
  have inj: "inj (dateToId env)" and rt: "idToDate env (dateToId env t) = Some t"
    using assms by (auto simp: idsOk_def)
  have "finite {i. map_of ms i \<noteq> None}"
    using finite_dom_map_of [of ms] by (simp add: dom_def)
  moreover have "finite {i. inherited i}"
    by (rule finite_inherited)
  ultimately have "finite {i. map_of ms i \<noteq> None \<or> inherited i}"
    by (simp add: Collect_disj_eq)
  from uniqueIdLoop_returns [OF inj this, of t] obtain n where
    n: "uniqueIdLoop (dateToId env) (\<lambda>i. map_of ms i \<noteq> None \<or> inherited i) t =
          Some (dateToId env (Suc (t + n)))"
       "map_of ms (dateToId env (Suc (t + n))) = None"
       "\<not> inherited (dateToId env (Suc (t + n)))"
       "\<forall>j<n. map_of ms (dateToId env (Suc (t + j))) \<noteq> None \<or> inherited (dateToId env (Suc (t + j)))"
    by auto
  have "getUniqueId env (dateToId env t) ms = Some (Inr (dateToId env (t + Suc n)))"
    using False rt n(1) by (auto simp: getUniqueId_def)
  moreover have "\<forall>j<Suc n. map_of ms (dateToId env (t + j)) \<noteq> None \<or> inherited (dateToId env (t + j))"
  proof (intro allI impI)
    fix j assume "j < Suc n"
    then show "map_of ms (dateToId env (t + j)) \<noteq> None \<or> inherited (dateToId env (t + j))"
      using False n(4) by (cases j) auto
  qed
  ultimately show ?thesis using n(2,3)
    by (intro exI [of _ "Suc n"]) simp
qed

lemma generateFolder_returns:
  assumes "idsOk env"
  shows "\<exists>n. generateFolder env title st =
               Some (Inr (dateToId env (clock env (t_reads st) + n),
                 st\<lparr>t_meta := AList.update (dateToId env (clock env (t_reads st) + n))
                              (folderMeta title (dateToId env (clock env (t_reads st) + n))) (t_meta st),
                    t_reads := Suc (t_reads st)\<rparr>)) \<and>
             map_of (t_meta st) (dateToId env (clock env (t_reads st) + n)) = None \<and>
             \<not> inherited (dateToId env (clock env (t_reads st) + n)) \<and>
             (\<forall>j<n. map_of (t_meta st) (dateToId env (clock env (t_reads st) + j)) \<noteq> None \<or>
                    inherited (dateToId env (clock env (t_reads st) + j)))"
proof -
  from getUniqueId_returns [OF assms, of "clock env (t_reads st)" "t_meta st"] obtain n where
    "getUniqueId env (dateToId env (clock env (t_reads st))) (t_meta st) =
       Some (Inr (dateToId env (clock env (t_reads st) + n)))"
    "map_of (t_meta st) (dateToId env (clock env (t_reads st) + n)) = None"
    "\<not> inherited (dateToId env (clock env (t_reads st) + n))"
    "\<forall>j<n. map_of (t_meta st) (dateToId env (clock env (t_reads st) + j)) \<noteq> None \<or>
           inherited (dateToId env (clock env (t_reads st) + j))"
    by (elim exE conjE)
  then show ?thesis
    by (intro exI [of _ n]) (simp add: generateFolder_def)
qed


subsection \<open>One path segment\<close>

lemma linkedFolder_Some:
  "linkedFolder st p seg = Some f \<longleftrightarrow>
     titleIdMap st (Some seg) = Some f \<and> (map_of (t_meta st) f \<noteq> None \<or> inherited f) \<and>
     (\<exists>cs. map_of (t_toc st) p = Some cs \<and> f \<in> set cs)"
  by (auto simp: linkedFolder_def split: option.splits)

lemma insertSegment_linked:
  assumes "linkedFolder st p seg = Some f"
  shows "insertSegment env seg (st, p) = Some (Inr (ensureToc f st, f))"
proof -
  from assms have "map_of (t_toc st) p \<noteq> None"
    by (auto simp: linkedFolder_Some)
  with assms show ?thesis
    by (simp add: insertSegment_def)
qed

lemma insertSegment_generated:
  assumes "idsOk env" and "linkedFolder st p seg = None" and "map_of (t_toc st) p = Some cs"
  shows "\<exists>n. insertSegment env seg (st, p) =
           Some (Inr (ensureToc (dateToId env (clock env (t_reads st) + n))
             (st\<lparr>t_meta := AList.update (dateToId env (clock env (t_reads st) + n))
                   (folderMeta seg (dateToId env (clock env (t_reads st) + n))) (t_meta st),
                 t_reads := Suc (t_reads st),
                 t_toc := AList.update p (cs @ [dateToId env (clock env (t_reads st) + n)]) (t_toc st),
                 titleIdMap := (titleIdMap st)(Some seg \<mapsto> dateToId env (clock env (t_reads st) + n))\<rparr>),
             dateToId env (clock env (t_reads st) + n))) \<and>
         map_of (t_meta st) (dateToId env (clock env (t_reads st) + n)) = None \<and>
         \<not> inherited (dateToId env (clock env (t_reads st) + n)) \<and>
         (\<forall>j<n. map_of (t_meta st) (dateToId env (clock env (t_reads st) + j)) \<noteq> None \<or>
                inherited (dateToId env (clock env (t_reads st) + j)))"
proof -
  from generateFolder_returns [OF assms(1), of seg st] obtain n where
    n: "generateFolder env seg st =
               Some (Inr (dateToId env (clock env (t_reads st) + n),
                 st\<lparr>t_meta := AList.update (dateToId env (clock env (t_reads st) + n))
                              (folderMeta seg (dateToId env (clock env (t_reads st) + n))) (t_meta st),
                    t_reads := Suc (t_reads st)\<rparr>))"
      "map_of (t_meta st) (dateToId env (clock env (t_reads st) + n)) = None"
      "\<not> inherited (dateToId env (clock env (t_reads st) + n))"
      "\<forall>j<n. map_of (t_meta st) (dateToId env (clock env (t_reads st) + j)) \<noteq> None \<or>
             inherited (dateToId env (clock env (t_reads st) + j))"
    by (elim exE conjE)
  show ?thesis
    using n assms(2,3)
    by (intro exI [of _ n]) (simp add: insertSegment_def pushChild_def)
qed

lemma ensureToc_toc:
  "\<not> inherited f \<Longrightarrow> map_of (t_toc (ensureToc f st)) =
     (case map_of (t_toc st) f of
        None \<Rightarrow> (map_of (t_toc st))(f \<mapsto> [])
      | Some cs \<Rightarrow> map_of (t_toc st))"
  by (auto simp: ensureToc_def update_conv' split: option.splits)

lemma ensureToc_frame [simp]:
  "t_meta (ensureToc f st) = t_meta st" "t_reads (ensureToc f st) = t_reads st"
  "referredIds (ensureToc f st) = referredIds st" "titleIdMap (ensureToc f st) = titleIdMap st"
  by (auto simp: ensureToc_def)

lemma tocChildren_ensureToc [simp]:
  "tocChildren (t_toc (ensureToc f st)) = tocChildren (t_toc st)"
  unfolding tocChildren_def ensureToc_def
  by (auto simp: update_conv' split: option.splits if_splits) (metis option.distinct(1))

lemma tocChildren_push:
  "map_of toc p = Some cs \<Longrightarrow>
     tocChildren (AList.update p (cs @ [x]) toc) = insert x (tocChildren toc)"
  unfolding tocChildren_def update_conv'
  by (auto split: if_splits) (metis option.inject)

lemma grows_refl: "grows st st"
  by (auto simp: grows_def)

lemma grows_trans:
  assumes "grows a b" and "grows b c"
  shows "grows a c"
  unfolding grows_def
proof (intro conjI allI impI)
  show "referredIds c = referredIds a" using assms by (simp add: grows_def)
  show "tocChildren (t_toc a) \<subseteq> tocChildren (t_toc c)"
    using assms unfolding grows_def by blast
next
  fix k m assume "map_of (t_meta a) k = Some m"
  with assms(1) obtain m' where "map_of (t_meta b) k = Some m'" "m_title m' = m_title m"
    unfolding grows_def by blast
  with assms(2) show "\<exists>m'. map_of (t_meta c) k = Some m' \<and> m_title m' = m_title m"
    unfolding grows_def by fastforce
next
  fix k assume "map_of (t_meta c) k \<noteq> None"
  with assms(2) have "map_of (t_meta b) k \<noteq> None \<or> k \<in> tocChildren (t_toc c)"
    unfolding grows_def by blast
  moreover have "tocChildren (t_toc b) \<subseteq> tocChildren (t_toc c)"
    using assms(2) unfolding grows_def by blast
  ultimately show "map_of (t_meta a) k \<noteq> None \<or> k \<in> tocChildren (t_toc c)"
    using assms(1) unfolding grows_def by blast
next
  fix cs assume "map_of (t_toc a) ''root'' = Some cs"
  with assms(1) obtain more where "map_of (t_toc b) ''root'' = Some (cs @ more)"
    unfolding grows_def by blast
  with assms(2) obtain more' where "map_of (t_toc c) ''root'' = Some ((cs @ more) @ more')"
    unfolding grows_def by blast
  then show "\<exists>more. map_of (t_toc c) ''root'' = Some (cs @ more)"
    by auto
qed



lemma tocInv_root: "tocInv p st \<Longrightarrow> map_of (t_toc st) ''root'' \<noteq> None"
  by (simp add: tocInv_def)

lemma tocInv_meta: "tocInv p st \<Longrightarrow> map_of (t_meta st) k \<noteq> None \<Longrightarrow> \<not> inherited k"
  unfolding tocInv_def by blast

lemma tocInv_child:
  "tocInv p st \<Longrightarrow> map_of (t_toc st) k = Some cs \<Longrightarrow> c \<in> set cs \<Longrightarrow> \<not> inherited c \<Longrightarrow>
     \<exists>m. map_of (t_meta st) c = Some m"
  unfolding tocInv_def by blast

lemma tocInv_key:
  "tocInv p st \<Longrightarrow> map_of (t_toc st) k = Some cs \<Longrightarrow> \<not> reserved k \<Longrightarrow> \<not> inherited k \<Longrightarrow>
     \<exists>m. map_of (t_meta st) k = Some m"
  unfolding tocInv_def by blast

lemma tocInv_empty:
  "tocInv p st \<Longrightarrow> map_of (t_toc st) k = Some [] \<Longrightarrow> reserved k \<or> k = p"
  unfolding tocInv_def by blast

lemma insertSegment_inv:
  assumes env: "idsOk env" and inv: "tocInv p st" and p: "map_of (t_toc st) p \<noteq> None"
    and titles: "titlesOk st"
  shows "\<exists>st' f. insertSegment env seg (st, p) = Some (Inr (st', f)) \<and> tocInv f st' \<and>
           map_of (t_toc st') f \<noteq> None \<and> titlesOk st' \<and> grows st st'"
proof (cases "linkedFolder st p seg")
  case (Some f)
  then obtain cs where f0: "titleIdMap st (Some seg) = Some f"
      "map_of (t_toc st) p = Some cs" "f \<in> set cs"
    by (auto simp: linkedFolder_Some)
  from titles f0(1) have f2: "map_of (t_meta st) f \<noteq> None"
    unfolding titlesOk_def by blast
  with inv have nf: "\<not> inherited f"
    unfolding tocInv_def by blast
  note f = f0(1) f2 f0(2,3)
  note et = ensureToc_toc [OF nf]
  let ?st' = "ensureToc f st"
  have 1: "insertSegment env seg (st, p) = Some (Inr (?st', f))"
    by (rule insertSegment_linked [OF Some])
  have 2: "tocInv f ?st'"
    unfolding tocInv_def
  proof (intro conjI allI impI)
    show "map_of (t_toc ?st') ''root'' \<noteq> None"
      using inv unfolding tocInv_def et
      by (auto split: option.splits)
  next
    fix k assume "map_of (t_meta ?st') k \<noteq> None"
    with inv show "\<not> inherited k" unfolding tocInv_def by simp
  next
    fix k ks assume k: "map_of (t_toc ?st') k = Some ks"
    then have cases: "(k = f \<and> ks = []) \<or> map_of (t_toc st) k = Some ks"
      unfolding et by (auto split: option.splits if_splits)
    show "\<forall>c\<in>set ks. map_of (t_meta ?st') c \<noteq> None \<or> inherited c"
      using cases by (auto intro: tocInv_child [OF inv])
    show "\<not> reserved k \<Longrightarrow> map_of (t_meta ?st') k \<noteq> None \<or> inherited k"
      using cases f(2) by (auto intro: tocInv_key [OF inv])
    show "reserved k \<or> k = f" if "ks = []"
    proof (cases "k = p")
      case True
      with cases f(3,4) that show ?thesis by auto
    next
      case False
      with cases tocInv_empty [OF inv, of k] that show ?thesis by auto
    qed
  qed
  have 3: "map_of (t_toc ?st') f \<noteq> None"
    by (auto simp: et split: option.splits)
  have 4: "titlesOk ?st'"
    using titles by (simp add: titlesOk_def)
  have 5: "grows st ?st'"
    unfolding grows_def by (auto simp: et split: option.splits)
  from 1 2 3 4 5 show ?thesis by blast
next
  case None
  from p obtain cs where cs: "map_of (t_toc st) p = Some cs" by blast
  from insertSegment_generated [OF env None cs] obtain f where
    res: "insertSegment env seg (st, p) =
           Some (Inr (ensureToc f
             (st\<lparr>t_meta := AList.update f (folderMeta seg f) (t_meta st),
                 t_reads := Suc (t_reads st),
                 t_toc := AList.update p (cs @ [f]) (t_toc st),
                 titleIdMap := (titleIdMap st)(Some seg \<mapsto> f)\<rparr>), f))"
    and fresh: "map_of (t_meta st) f = None" and nf: "\<not> inherited f"
    by blast
  note et = ensureToc_toc [OF nf]
  let ?st2 = "st\<lparr>t_meta := AList.update f (folderMeta seg f) (t_meta st),
                 t_reads := Suc (t_reads st),
                 t_toc := AList.update p (cs @ [f]) (t_toc st),
                 titleIdMap := (titleIdMap st)(Some seg \<mapsto> f)\<rparr>"
  let ?st' = "ensureToc f ?st2"
  have meta': "map_of (t_meta ?st') = (map_of (t_meta st))(f \<mapsto> folderMeta seg f)"
    by (simp add: update_conv')
  have toc2: "map_of (t_toc ?st2) = (map_of (t_toc st))(p \<mapsto> cs @ [f])"
    by (simp add: update_conv')
  have 2: "tocInv f ?st'"
    unfolding tocInv_def
  proof (intro conjI allI impI)
    show "map_of (t_toc ?st') ''root'' \<noteq> None"
      using inv unfolding tocInv_def et toc2
      by (auto split: option.splits)
  next
    fix k assume "map_of (t_meta ?st') k \<noteq> None"
    with inv nf show "\<not> inherited k" unfolding tocInv_def meta' by (auto split: if_splits)
  next
    fix k ks assume k: "map_of (t_toc ?st') k = Some ks"
    then have cases: "(k = f \<and> ks = [] \<and> map_of (t_toc ?st2) f = None) \<or>
        (k = p \<and> ks = cs @ [f]) \<or> (k \<noteq> p \<and> map_of (t_toc st) k = Some ks)"
      unfolding et toc2 by (auto split: option.splits if_splits)
    show "\<forall>c\<in>set ks. map_of (t_meta ?st') c \<noteq> None \<or> inherited c"
      using cases cs unfolding meta' by (auto intro: tocInv_child [OF inv])
    show "\<not> reserved k \<Longrightarrow> map_of (t_meta ?st') k \<noteq> None \<or> inherited k"
      using cases cs unfolding meta' by (auto intro: tocInv_key [OF inv])
    show "ks = [] \<Longrightarrow> reserved k \<or> k = f"
      using cases tocInv_empty [OF inv, of k] by auto
  qed
  have 3: "map_of (t_toc ?st') f \<noteq> None"
    by (auto simp: et split: option.splits)
  have 4: "titlesOk ?st'"
    unfolding titlesOk_def
  proof (intro allI impI)
    fix t g assume "titleIdMap ?st' t = Some g"
    then have "(t = Some seg \<and> g = f) \<or> titleIdMap st t = Some g"
      by (auto split: if_splits)
    then show "(\<exists>m. map_of (t_meta ?st') g = Some m \<and> m_title m = t) \<or>
               (map_of (t_meta ?st') g = None \<and> inherited g \<and> t = None)"
    proof
      assume "t = Some seg \<and> g = f"
      then show ?thesis unfolding meta' by (simp add: folderMeta_def)
    next
      assume "titleIdMap st t = Some g"
      with titles have "(\<exists>m. map_of (t_meta st) g = Some m \<and> m_title m = t) \<or>
               (map_of (t_meta st) g = None \<and> inherited g \<and> t = None)"
        unfolding titlesOk_def by blast
      with fresh nf show ?thesis unfolding meta' by auto
    qed
  qed
  have ch: "tocChildren (t_toc ?st') = insert f (tocChildren (t_toc st))"
    using tocChildren_push [OF cs, of f] by simp
  have 5: "grows st ?st'"
    unfolding grows_def
  proof (intro conjI allI impI)
    show "referredIds ?st' = referredIds st" by simp
    show "tocChildren (t_toc st) \<subseteq> tocChildren (t_toc ?st')" using ch by auto
  next
    fix k m assume "map_of (t_meta st) k = Some m"
    with fresh show "\<exists>m'. map_of (t_meta ?st') k = Some m' \<and> m_title m' = m_title m"
      unfolding meta' by auto
  next
    fix k assume "map_of (t_meta ?st') k \<noteq> None"
    then show "map_of (t_meta st) k \<noteq> None \<or> k \<in> tocChildren (t_toc ?st')"
      unfolding meta' ch by (auto split: if_splits)
  next
    fix rs assume "map_of (t_toc st) ''root'' = Some rs"
    then show "\<exists>more. map_of (t_toc ?st') ''root'' = Some (rs @ more)"
      unfolding et toc2 using cs
      by (auto split: option.splits)
  qed
  from res 2 3 4 5 show ?thesis by blast
qed


subsection \<open>Adding one item, and all of them\<close>

lemma insertSegments_inv:
  assumes "idsOk env" and "tocInv p st" and "map_of (t_toc st) p \<noteq> None" and "titlesOk st"
  shows "\<exists>st' f. foldR (insertSegment env) segs (st, p) = Some (Inr (st', f)) \<and> tocInv f st' \<and>
           map_of (t_toc st') f \<noteq> None \<and> titlesOk st' \<and> grows st st'"
  using assms(2-)
proof (induction segs arbitrary: st p)
  case Nil
  then show ?case by (auto simp: grows_refl)
next
  case (Cons seg segs)
  from insertSegment_inv [OF assms(1) Cons.prems] obtain st1 f1 where
    1: "insertSegment env seg (st, p) = Some (Inr (st1, f1))" "tocInv f1 st1"
       "map_of (t_toc st1) f1 \<noteq> None" "titlesOk st1" "grows st st1"
    by blast
  from Cons.IH [OF 1(2,3,4)] obtain st' f where
    2: "foldR (insertSegment env) segs (st1, f1) = Some (Inr (st', f))" "tocInv f st'"
       "map_of (t_toc st') f \<noteq> None" "titlesOk st'" "grows st1 st'"
    by blast
  from 1(1) 2(1) have "foldR (insertSegment env) (seg # segs) (st, p) = Some (Inr (st', f))"
    by simp
  with 2 grows_trans [OF 1(5) 2(5)] show ?case by blast
qed

lemma pushChild_inv:
  assumes inv: "tocInv p st" and p: "map_of (t_toc st) p \<noteq> None"
    and x: "map_of (t_meta st) x \<noteq> None" and titles: "titlesOk st"
  shows "\<exists>st'. pushChild p x st = Some (Inr st') \<and> tocInv ''root'' st' \<and> titlesOk st' \<and>
           grows st st' \<and> x \<in> tocChildren (t_toc st')"
proof -
  from p obtain cs where cs: "map_of (t_toc st) p = Some cs" by blast
  let ?st' = "st\<lparr>t_toc := AList.update p (cs @ [x]) (t_toc st)\<rparr>"
  have 1: "pushChild p x st = Some (Inr ?st')"
    using cs by (simp add: pushChild_def)
  have toc': "map_of (t_toc ?st') = (map_of (t_toc st))(p \<mapsto> cs @ [x])"
    by (simp add: update_conv')
  have ch: "tocChildren (t_toc ?st') = insert x (tocChildren (t_toc st))"
    using tocChildren_push [OF cs, of x] by simp
  have 2: "tocInv ''root'' ?st'"
    unfolding tocInv_def
  proof (intro conjI allI impI)
    show "map_of (t_toc ?st') ''root'' \<noteq> None"
      using inv unfolding tocInv_def toc' by auto
  next
    fix k assume "map_of (t_meta ?st') k \<noteq> None"
    with inv show "\<not> inherited k" unfolding tocInv_def by simp
  next
    fix k ks assume "map_of (t_toc ?st') k = Some ks"
    then have cases: "(k = p \<and> ks = cs @ [x]) \<or> (k \<noteq> p \<and> map_of (t_toc st) k = Some ks)"
      unfolding toc' by (auto split: if_splits)
    show "\<forall>c\<in>set ks. map_of (t_meta ?st') c \<noteq> None \<or> inherited c"
      using cases cs x by (auto intro: tocInv_child [OF inv])
    show "\<not> reserved k \<Longrightarrow> map_of (t_meta ?st') k \<noteq> None \<or> inherited k"
      using cases cs by (auto intro: tocInv_key [OF inv])
    show "ks = [] \<Longrightarrow> reserved k \<or> k = ''root''"
      using cases tocInv_empty [OF inv, of k] by auto
  qed
  have 3: "titlesOk ?st'" using titles by (simp add: titlesOk_def)
  have 4: "grows st ?st'"
    unfolding grows_def ch
  proof (intro conjI allI impI)
    fix rs assume "map_of (t_toc st) ''root'' = Some rs"
    then show "\<exists>more. map_of (t_toc ?st') ''root'' = Some (rs @ more)"
      unfolding toc' using cs by auto
  qed auto
  from 1 2 3 4 ch show ?thesis by blast
qed

lemma tocInv_root_pending: "tocInv ''root'' st \<Longrightarrow> tocInv p st"
  by (auto simp: tocInv_def reserved_def)

lemma insertToToc_inv:
  assumes env: "idsOk env" and inv: "tocInv ''root'' st" and titles: "titlesOk st"
    and x: "map_of (t_meta st) x \<noteq> None"
  shows "\<exists>st'. insertToToc env x st = Some (Inr st') \<and> tocInv ''root'' st' \<and> titlesOk st' \<and>
           grows st st' \<and> x \<in> tocChildren (t_toc st')"
proof -
  from x obtain m where m: "map_of (t_meta st) x = Some m" by blast
  have root: "map_of (t_toc st) ''root'' \<noteq> None" using inv by (simp add: tocInv_def)
  show ?thesis
  proof (cases "truthy (m_folder m)")
    case False
    with m have "insertToToc env x st = pushChild ''root'' x st"
      by (simp add: insertToToc_def)
    with pushChild_inv [OF inv root x titles] show ?thesis by simp
  next
    case True
    from insertSegments_inv [OF env inv root titles] obtain st1 f where
      1: "foldR (insertSegment env) (splitRuns folderSep (orEmpty (m_folder m))) (st, ''root'') =
            Some (Inr (st1, f))"
         "tocInv f st1" "map_of (t_toc st1) f \<noteq> None" "titlesOk st1" "grows st st1"
      by blast
    from 1(5) m have x1: "map_of (t_meta st1) x \<noteq> None"
      unfolding grows_def by fastforce
    from pushChild_inv [OF 1(2,3) x1 1(4)] obtain st' where
      2: "pushChild f x st1 = Some (Inr st')" "tocInv ''root'' st'" "titlesOk st'"
         "grows st1 st'" "x \<in> tocChildren (t_toc st')"
      by blast
    from True m 1(1) 2(1) have "insertToToc env x st = Some (Inr st')"
      by (simp add: insertToToc_def)
    with 2 grows_trans [OF 1(5) 2(4)] show ?thesis by blast
  qed
qed

lemma stripTransient_toc [simp]:
  "t_toc (stripTransient x st) = t_toc st" "referredIds (stripTransient x st) = referredIds st"
  "titleIdMap (stripTransient x st) = titleIdMap st"
  by (auto simp: stripTransient_def split: option.splits)

lemma stripTransient_meta:
  "map_of (t_meta (stripTransient x st)) k =
     (if k = x then map_option (\<lambda>m. m\<lparr>m_id := None, m_folder := None, m_exported := None\<rparr>)
                      (map_of (t_meta st) x)
      else map_of (t_meta st) k)"
  by (auto simp: stripTransient_def update_conv' split: option.splits)

lemma stripTransient_inv:
  assumes "tocInv p st" and "titlesOk st"
  shows "tocInv p (stripTransient x st) \<and> titlesOk (stripTransient x st) \<and>
         grows st (stripTransient x st)"
proof (intro conjI)
  have dom: "(map_of (t_meta (stripTransient x st)) k = None) = (map_of (t_meta st) k = None)" for k
    by (auto simp: stripTransient_meta)
  show "tocInv p (stripTransient x st)"
    using assms(1) unfolding tocInv_def by (simp only: dom stripTransient_toc) blast
  show "titlesOk (stripTransient x st)"
    unfolding titlesOk_def
  proof (intro allI impI)
    fix t f assume "titleIdMap (stripTransient x st) t = Some f"
    then have "titleIdMap st t = Some f" by simp
    with assms(2) have "(\<exists>m. map_of (t_meta st) f = Some m \<and> m_title m = t) \<or>
        (map_of (t_meta st) f = None \<and> inherited f \<and> t = None)"
      unfolding titlesOk_def by blast
    then show "(\<exists>m. map_of (t_meta (stripTransient x st)) f = Some m \<and> m_title m = t) \<or>
        (map_of (t_meta (stripTransient x st)) f = None \<and> inherited f \<and> t = None)"
      by (auto simp: stripTransient_meta)
  qed
  show "grows st (stripTransient x st)"
    unfolding grows_def by (auto simp: stripTransient_meta)
qed

lemma addItem_inv:
  assumes env: "idsOk env" and inv: "tocInv ''root'' st" and titles: "titlesOk st"
    and x: "map_of (t_meta st) x \<noteq> None"
    and ref: "referredIds st \<subseteq> tocChildren (t_toc st)"
  shows "\<exists>st'. addItem env x st = Some (Inr st') \<and> tocInv ''root'' st' \<and> titlesOk st' \<and>
           grows st st' \<and> (reserved x \<or> x \<in> tocChildren (t_toc st'))"
proof (cases "x \<notin> referredIds st \<and> \<not> reserved x")
  case False
  then have 1: "addItem env x st = Some (Inr (stripTransient x st))"
    by (auto simp: addItem_def)
  from False ref have "reserved x \<or> x \<in> tocChildren (t_toc (stripTransient x st))"
    by auto
  with 1 stripTransient_inv [OF inv titles, of x] show ?thesis by simp
next
  case True
  from insertToToc_inv [OF env inv titles x] obtain st1 where
    1: "insertToToc env x st = Some (Inr st1)" "tocInv ''root'' st1" "titlesOk st1"
       "grows st st1" "x \<in> tocChildren (t_toc st1)"
    by blast
  let ?st2 = "st1\<lparr>titleIdMap := setTitle (t_meta st1) x (titleIdMap st1)\<rparr>"
  have inv2: "tocInv ''root'' ?st2" using 1(2) by (simp add: tocInv_def)
  have titles2: "titlesOk ?st2"
    using 1(3) unfolding titlesOk_def
    by (auto simp: setTitle_def split: option.splits if_splits)
  have g2: "grows st1 ?st2" by (auto simp: grows_def)
  from True 1(1) have res: "addItem env x st = Some (Inr (stripTransient x ?st2))"
    by (simp add: addItem_def)
  from stripTransient_inv [OF inv2 titles2, of x] 1(5) res
    grows_trans [OF 1(4) grows_trans [OF g2]]
  show ?thesis by auto
qed

lemma addItems_inv:
  assumes env: "idsOk env" and inv: "tocInv ''root'' st" and titles: "titlesOk st"
    and ks: "\<forall>k\<in>set ks. map_of (t_meta st) k \<noteq> None"
    and ref: "referredIds st \<subseteq> tocChildren (t_toc st)"
  shows "\<exists>st'. foldR (addItem env) ks st = Some (Inr st') \<and> tocInv ''root'' st' \<and> titlesOk st' \<and>
           grows st st' \<and> (\<forall>k\<in>set ks. reserved k \<or> k \<in> tocChildren (t_toc st'))"
  using inv titles ks ref
proof (induction ks arbitrary: st)
  case Nil
  then show ?case by (auto simp: grows_refl)
next
  case (Cons x ks)
  from Cons.prems(3) have x: "map_of (t_meta st) x \<noteq> None" by simp
  from addItem_inv [OF env Cons.prems(1,2) x Cons.prems(4)] obtain st1 where
    1: "addItem env x st = Some (Inr st1)" "tocInv ''root'' st1" "titlesOk st1"
       "grows st st1" "reserved x \<or> x \<in> tocChildren (t_toc st1)"
    by blast
  have ks1: "\<forall>k\<in>set ks. map_of (t_meta st1) k \<noteq> None"
    using Cons.prems(3) 1(4) unfolding grows_def by fastforce
  have ref1: "referredIds st1 \<subseteq> tocChildren (t_toc st1)"
    using Cons.prems(4) 1(4) unfolding grows_def by auto
  from Cons.IH [OF 1(2,3) ks1 ref1] obtain st' where
    2: "foldR (addItem env) ks st1 = Some (Inr st')" "tocInv ''root'' st'" "titlesOk st'"
       "grows st1 st'" "\<forall>k\<in>set ks. reserved k \<or> k \<in> tocChildren (t_toc st')"
    by blast
  have "reserved x \<or> x \<in> tocChildren (t_toc st')"
    using 1(5) 2(4) unfolding grows_def by auto
  moreover have "foldR (addItem env) (x # ks) st = Some (Inr st')"
    using 1(1) 2(1) by simp
  ultimately show ?case
    using 2 grows_trans [OF 1(4) 2(4)] by auto
qed


lemma startToc_simps [simp]:
  "t_meta (startToc ms toc n) = ms" "t_toc (startToc ms toc n) = toc"
  "referredIds (startToc ms toc n) = {}" "titleIdMap (startToc ms toc n) = Map.empty"
  "t_reads (startToc ms toc n) = n"
  by (simp_all add: startToc_def)

lemma set_sorted_keys [simp]: "set (sort_key f xs) = set xs"
  by simp

subsection \<open>No identifier listed twice\<close>

lemma noDup_distinct: "noDup toc \<Longrightarrow> map_of toc k = Some cs \<Longrightarrow> distinct cs"
  unfolding noDup_def by blast

lemma noDup_unique:
  "noDup toc \<Longrightarrow> map_of toc k1 = Some cs1 \<Longrightarrow> map_of toc k2 = Some cs2 \<Longrightarrow>
     c \<in> set cs1 \<Longrightarrow> c \<in> set cs2 \<Longrightarrow> k1 = k2"
  unfolding noDup_def by blast

lemma noDup_push:
  assumes "noDup toc" and "map_of toc p = Some cs" and "x \<notin> tocChildren toc"
  shows "noDup (AList.update p (cs @ [x]) toc)"
proof -
  have notin: "x \<notin> set ds" if "map_of toc q = Some ds" for q ds
    using assms(3) that unfolding tocChildren_def by blast
  have dist: "distinct ds" if "map_of toc q = Some ds" for q ds
    using assms(1) that by (rule noDup_distinct)
  have uniq: "q1 = q2"
    if "map_of toc q1 = Some d1" "map_of toc q2 = Some d2" "c \<in> set d1" "c \<in> set d2"
    for q1 q2 d1 d2 c
    using assms(1) that by (rule noDup_unique)
  show ?thesis
    unfolding noDup_def update_conv'
  proof (intro conjI allI impI)
    fix k ks assume k: "((map_of toc)(p \<mapsto> cs @ [x])) k = Some ks"
    show "distinct ks"
    proof (cases "k = p")
      case True
      with k have "ks = cs @ [x]" by simp
      with dist [OF assms(2)] notin [OF assms(2)] show ?thesis by simp
    next
      case False
      with k have "map_of toc k = Some ks" by simp
      then show ?thesis by (rule dist)
    qed
  next
    fix k1 k2 cs1 cs2 c
    assume a: "((map_of toc)(p \<mapsto> cs @ [x])) k1 = Some cs1"
      "((map_of toc)(p \<mapsto> cs @ [x])) k2 = Some cs2" "c \<in> set cs1" "c \<in> set cs2"
    have old: "c = x \<or> (map_of toc k = Some (if k = p then cs else ds) \<and> c \<in> set (if k = p then cs else ds))"
      if "((map_of toc)(p \<mapsto> cs @ [x])) k = Some ds" "c \<in> set ds" for k ds
      using that assms(2) by (cases "k = p") auto
    have px: "k = p" if "((map_of toc)(p \<mapsto> cs @ [x])) k = Some ds" "x \<in> set ds" for k ds
    proof (rule ccontr)
      assume "k \<noteq> p"
      with that have "map_of toc k = Some ds" by simp
      from notin [OF this] that(2) show False by simp
    qed
    show "k1 = k2"
    proof (cases "c = x")
      case True
      with a(3,4) have "x \<in> set cs1" "x \<in> set cs2" by simp_all
      from px [OF a(1) this(1)] px [OF a(2) this(2)] show ?thesis by simp
    next
      case False
      from old [OF a(1,3)] False
      have 1: "map_of toc k1 = Some (if k1 = p then cs else cs1)"
        "c \<in> set (if k1 = p then cs else cs1)" by simp_all
      from old [OF a(2,4)] False
      have 2: "map_of toc k2 = Some (if k2 = p then cs else cs2)"
        "c \<in> set (if k2 = p then cs else cs2)" by simp_all
      from uniq [OF 1(1) 2(1) 1(2) 2(2)] show ?thesis .
    qed
  qed
qed

lemma noDup_ensureToc:
  assumes "noDup (t_toc st)"
  shows "noDup (t_toc (ensureToc f st))"
proof (cases "map_of (t_toc st) f = None \<and> \<not> inherited f")
  case False
  then have "t_toc (ensureToc f st) = t_toc st"
    by (auto simp: ensureToc_def)
  with assms show ?thesis by (simp only:)
next
  case True
  then have m: "map_of (t_toc (ensureToc f st)) = (map_of (t_toc st))(f \<mapsto> [])"
    by (simp add: ensureToc_def update_conv')
  show ?thesis
    unfolding noDup_def m
  proof (intro conjI allI impI)
    fix k cs assume k: "((map_of (t_toc st))(f \<mapsto> [])) k = Some cs"
    show "distinct cs"
    proof (cases "k = f")
      case True
      with k show ?thesis by simp
    next
      case False
      with k have "map_of (t_toc st) k = Some cs" by simp
      with assms show ?thesis by (rule noDup_distinct)
    qed
  next
    fix k1 k2 cs1 cs2 c
    assume a: "((map_of (t_toc st))(f \<mapsto> [])) k1 = Some cs1"
      "((map_of (t_toc st))(f \<mapsto> [])) k2 = Some cs2" "c \<in> set cs1" "c \<in> set cs2"
    have "k1 \<noteq> f" using a(1,3) by (cases "k1 = f") auto
    moreover have "k2 \<noteq> f" using a(2,4) by (cases "k2 = f") auto
    ultimately have "map_of (t_toc st) k1 = Some cs1" "map_of (t_toc st) k2 = Some cs2"
      using a(1,2) by simp_all
    from noDup_unique [OF assms this a(3,4)] show "k1 = k2" .
  qed
qed

lemma tocInv_fresh_not_child:
  assumes "tocInv p st" and "map_of (t_meta st) f = None" and "\<not> inherited f"
  shows "f \<notin> tocChildren (t_toc st)"
proof
  assume "f \<in> tocChildren (t_toc st)"
  then obtain k cs where "map_of (t_toc st) k = Some cs" "f \<in> set cs"
    unfolding tocChildren_def by blast
  from tocInv_child [OF assms(1) this assms(3)] assms(2) show False by simp
qed

lemma onlyNew_trans:
  assumes "onlyNew X a b" and "onlyNew Y b c" and "grows a b"
  shows "onlyNew (X \<union> Y) a c"
  unfolding onlyNew_def
proof
  fix x assume "x \<in> tocChildren (t_toc c)"
  with assms(2) have "x \<in> tocChildren (t_toc b) \<or> x \<in> Y \<or> map_of (t_meta b) x = None"
    unfolding onlyNew_def by auto
  moreover have "map_of (t_meta b) x = None \<Longrightarrow> map_of (t_meta a) x = None"
    using assms(3) unfolding grows_def by fastforce
  ultimately show "x \<in> tocChildren (t_toc a) \<or> x \<in> X \<union> Y \<or> map_of (t_meta a) x = None"
    using assms(1) unfolding onlyNew_def by auto
qed

lemma insertSegment_noDup:
  assumes env: "idsOk env" and inv: "tocInv p st" and p: "map_of (t_toc st) p \<noteq> None"
    and nd: "noDup (t_toc st)"
    and res: "insertSegment env seg (st, p) = Some (Inr (st', f))"
  shows "noDup (t_toc st') \<and> onlyNew {} st st'"
proof (cases "linkedFolder st p seg")
  case (Some g)
  from insertSegment_linked [OF Some, of env] res have "st' = ensureToc g st" by simp
  with nd show ?thesis
    by (simp add: noDup_ensureToc onlyNew_def)
next
  case None
  from p obtain cs where cs: "map_of (t_toc st) p = Some cs" by blast
  from insertSegment_generated [OF env None cs] res obtain g where
    st': "st' = ensureToc g
             (st\<lparr>t_meta := AList.update g (folderMeta seg g) (t_meta st),
                 t_reads := Suc (t_reads st),
                 t_toc := AList.update p (cs @ [g]) (t_toc st),
                 titleIdMap := (titleIdMap st)(Some seg \<mapsto> g)\<rparr>)"
    and fresh: "map_of (t_meta st) g = None" and ng: "\<not> inherited g"
    by auto
  have g: "g \<notin> tocChildren (t_toc st)"
    by (rule tocInv_fresh_not_child [OF inv fresh ng])
  have "noDup (AList.update p (cs @ [g]) (t_toc st))"
    by (rule noDup_push [OF nd cs g])
  then have 1: "noDup (t_toc st')"
    unfolding st' by (intro noDup_ensureToc) simp
  have "tocChildren (t_toc st') = insert g (tocChildren (t_toc st))"
    unfolding st' using tocChildren_push [OF cs, of g] by simp
  with fresh have 2: "onlyNew {} st st'"
    by (auto simp: onlyNew_def)
  from 1 2 show ?thesis ..
qed

lemma insertSegments_noDup:
  assumes env: "idsOk env"
  shows "tocInv p st \<Longrightarrow> map_of (t_toc st) p \<noteq> None \<Longrightarrow> titlesOk st \<Longrightarrow> noDup (t_toc st) \<Longrightarrow>
     foldR (insertSegment env) segs (st, p) = Some (Inr (st', f)) \<Longrightarrow>
     noDup (t_toc st') \<and> onlyNew {} st st'"
proof (induction segs arbitrary: st p)
  case Nil
  then show ?case by (simp add: onlyNew_def)
next
  case (Cons seg segs)
  from insertSegment_inv [OF env Cons.prems(1,2,3)] obtain st1 f1 where
    1: "insertSegment env seg (st, p) = Some (Inr (st1, f1))" "tocInv f1 st1"
       "map_of (t_toc st1) f1 \<noteq> None" "titlesOk st1" "grows st st1"
    by blast
  from insertSegment_noDup [OF env Cons.prems(1,2,4) 1(1)]
  have 2: "noDup (t_toc st1)" "onlyNew {} st st1" by auto
  from Cons.prems(5) 1(1) have "foldR (insertSegment env) segs (st1, f1) = Some (Inr (st', f))"
    by simp
  from Cons.IH [OF 1(2,3,4) 2(1) this] have 3: "noDup (t_toc st')" "onlyNew {} st1 st'"
    by auto
  from onlyNew_trans [OF 2(2) 3(2) 1(5)] 3(1) show ?case by simp
qed

lemma insertToToc_noDup:
  assumes env: "idsOk env" and inv: "tocInv ''root'' st" and titles: "titlesOk st"
    and x: "map_of (t_meta st) x \<noteq> None" and nd: "noDup (t_toc st)"
    and nx: "x \<notin> tocChildren (t_toc st)"
    and res: "insertToToc env x st = Some (Inr st')"
  shows "noDup (t_toc st') \<and> onlyNew {x} st st'"
proof -
  from x obtain m where m: "map_of (t_meta st) x = Some m" by blast
  have root: "map_of (t_toc st) ''root'' \<noteq> None" using inv by (simp add: tocInv_def)
  have push: "noDup (t_toc s') \<and> onlyNew {x} s s'"
    if "pushChild q x s = Some (Inr s')" "noDup (t_toc s)" "x \<notin> tocChildren (t_toc s)" for q s s'
  proof -
    from that(1) obtain cs where cs: "map_of (t_toc s) q = Some cs"
      "s' = s\<lparr>t_toc := AList.update q (cs @ [x]) (t_toc s)\<rparr>"
      by (auto simp: pushChild_def split: option.splits)
    from noDup_push [OF that(2) cs(1) that(3)] tocChildren_push [OF cs(1), of x] cs(2)
    show ?thesis by (auto simp: onlyNew_def)
  qed
  show ?thesis
  proof (cases "truthy (m_folder m)")
    case False
    with m res have "pushChild ''root'' x st = Some (Inr st')"
      by (simp add: insertToToc_def)
    from push [OF this nd nx] show ?thesis .
  next
    case True
    from insertSegments_inv [OF env inv root titles] obtain st1 f where
      1: "foldR (insertSegment env) (splitRuns folderSep (orEmpty (m_folder m))) (st, ''root'') =
            Some (Inr (st1, f))" "grows st st1"
      by blast
    from insertSegments_noDup [OF env inv root titles nd 1(1)]
    have 2: "noDup (t_toc st1)" "onlyNew {} st st1" by auto
    have nx1: "x \<notin> tocChildren (t_toc st1)"
      using 2(2) nx x unfolding onlyNew_def by auto
    from True m 1(1) res have "pushChild f x st1 = Some (Inr st')"
      by (simp add: insertToToc_def)
    from push [OF this 2(1) nx1] have 3: "noDup (t_toc st')" "onlyNew {x} st1 st'" by auto
    from onlyNew_trans [OF 2(2) 3(2) 1(2)] 3(1) show ?thesis by simp
  qed
qed

lemma addItem_noDup:
  assumes env: "idsOk env" and inv: "tocInv ''root'' st" and titles: "titlesOk st"
    and x: "map_of (t_meta st) x \<noteq> None" and nd: "noDup (t_toc st)"
    and nx: "x \<in> tocChildren (t_toc st) \<longrightarrow> x \<in> referredIds st"
    and res: "addItem env x st = Some (Inr st')"
  shows "noDup (t_toc st') \<and> onlyNew {x} st st'"
proof (cases "x \<notin> referredIds st \<and> \<not> reserved x")
  case False
  with res have "st' = stripTransient x st"
    by (auto simp: addItem_def)
  with nd show ?thesis by (simp add: onlyNew_def)
next
  case True
  with res obtain st1 where
    1: "insertToToc env x st = Some (Inr st1)"
       "st' = stripTransient x (st1\<lparr>titleIdMap := setTitle (t_meta st1) x (titleIdMap st1)\<rparr>)"
    by (auto simp: addItem_def split: option.splits sum.splits)
  from True nx have "x \<notin> tocChildren (t_toc st)" by auto
  from insertToToc_noDup [OF env inv titles x nd this 1(1)] show ?thesis
    by (simp add: 1(2) onlyNew_def)
qed

lemma addItems_noDup:
  assumes env: "idsOk env"
  shows "tocInv ''root'' st \<Longrightarrow> titlesOk st \<Longrightarrow> \<forall>k\<in>set ks. map_of (t_meta st) k \<noteq> None \<Longrightarrow>
     referredIds st \<subseteq> tocChildren (t_toc st) \<Longrightarrow> distinct ks \<Longrightarrow>
     \<forall>k\<in>set ks. k \<in> tocChildren (t_toc st) \<longrightarrow> k \<in> referredIds st \<Longrightarrow>
     noDup (t_toc st) \<Longrightarrow> foldR (addItem env) ks st = Some (Inr st') \<Longrightarrow>
     noDup (t_toc st')"
proof (induction ks arbitrary: st)
  case Nil
  then show ?case by simp
next
  case (Cons x ks)
  from Cons.prems(3) have x: "map_of (t_meta st) x \<noteq> None" by simp
  from addItem_inv [OF env Cons.prems(1,2) x Cons.prems(4)] obtain st1 where
    1: "addItem env x st = Some (Inr st1)" "tocInv ''root'' st1" "titlesOk st1"
       "grows st st1"
    by blast
  from Cons.prems(6) have nx: "x \<in> tocChildren (t_toc st) \<longrightarrow> x \<in> referredIds st" by simp
  from addItem_noDup [OF env Cons.prems(1,2) x Cons.prems(7) nx 1(1)]
  have 2: "noDup (t_toc st1)" "onlyNew {x} st st1" by auto
  have ks1: "\<forall>k\<in>set ks. map_of (t_meta st1) k \<noteq> None"
    using Cons.prems(3) 1(4) unfolding grows_def by fastforce
  have ref1: "referredIds st1 \<subseteq> tocChildren (t_toc st1)"
    using Cons.prems(4) 1(4) unfolding grows_def by auto
  have new1: "\<forall>k\<in>set ks. k \<in> tocChildren (t_toc st1) \<longrightarrow> k \<in> referredIds st1"
  proof (intro ballI impI)
    fix k assume k: "k \<in> set ks" "k \<in> tocChildren (t_toc st1)"
    with Cons.prems(5) have "k \<noteq> x" by auto
    moreover from k Cons.prems(3) have "map_of (t_meta st) k \<noteq> None" by simp
    ultimately have "k \<in> tocChildren (t_toc st)"
      using 2(2) k(2) unfolding onlyNew_def by auto
    with Cons.prems(6) k(1) have "k \<in> referredIds st" by simp
    with 1(4) show "k \<in> referredIds st1" unfolding grows_def by simp
  qed
  from Cons.prems(8) 1(1) have "foldR (addItem env) ks st1 = Some (Inr st')" by simp
  from Cons.IH [OF 1(2,3) ks1 ref1 _ new1 2(1) this] Cons.prems(5) show ?case by simp
qed

lemma pruneToc_noDup:
  assumes "noDup (t_toc st)"
  shows "noDup (t_toc (pruneToc st))"
proof -
  have sub: "\<exists>cs0. map_of (t_toc st) k = Some cs0 \<and> cs = filter (keepRef (t_meta st)) cs0"
    if "map_of (t_toc (pruneToc st)) k = Some cs" for k cs
    using that by (auto simp: pruneToc_toc prunedChildren_def split: option.splits if_splits)
  show ?thesis
    unfolding noDup_def
  proof (intro conjI allI impI)
    fix k cs assume "map_of (t_toc (pruneToc st)) k = Some cs"
    from sub [OF this] obtain cs0 where
      cs0: "map_of (t_toc st) k = Some cs0" "cs = filter (keepRef (t_meta st)) cs0"
      by blast
    from noDup_distinct [OF assms cs0(1)] cs0(2) show "distinct cs" by simp
  next
    fix k1 k2 cs1 cs2 c
    assume a: "map_of (t_toc (pruneToc st)) k1 = Some cs1"
      "map_of (t_toc (pruneToc st)) k2 = Some cs2" "c \<in> set cs1" "c \<in> set cs2"
    from sub [OF a(1)] obtain d1 where
      d1: "map_of (t_toc st) k1 = Some d1" "cs1 = filter (keepRef (t_meta st)) d1"
      by blast
    from sub [OF a(2)] obtain d2 where
      d2: "map_of (t_toc st) k2 = Some d2" "cs2 = filter (keepRef (t_meta st)) d2"
      by blast
    from a(3) d1(2) have c1: "c \<in> set d1" by simp
    from a(4) d2(2) have c2: "c \<in> set d2" by simp
    from noDup_unique [OF assms d1(1) d2(1) c1 c2] show "k1 = k2" .
  qed
qed

lemma count_list_distinct: "distinct cs \<Longrightarrow> c \<in> set cs \<Longrightarrow> count_list cs c = 1"
  by (induction cs) (auto simp: count_list_0_iff)

lemma noDup_occursOnce:
  assumes "noDup toc" and "c \<in> tocChildren toc"
  shows "occursOnce toc c"
proof -
  from assms(2) obtain p cs where p: "map_of toc p = Some cs" "c \<in> set cs"
    unfolding tocChildren_def by blast
  from noDup_distinct [OF assms(1) p(1)] have "distinct cs" .
  with p(2) have "count_list cs c = 1"
    by (rule count_list_distinct [rotated])
  moreover have "\<forall>q ds. map_of toc q = Some ds \<longrightarrow> c \<in> set ds \<longrightarrow> q = p"
    using noDup_unique [OF assms(1) _ p(1) _ p(2)] by blast
  ultimately show ?thesis
    unfolding occursOnce_def using p(1) by blast
qed


subsection \<open>The list of the key root\<close>

lemma insertSegment_root:
  assumes "insertSegment env seg (st, p) = Some (Inr (st', f))"
    and "map_of (t_toc st) ''root'' = Some cs"
  shows "\<exists>more. map_of (t_toc st') ''root'' = Some (cs @ more)"
proof (cases "linkedFolder st p seg")
  case (Some g)
  from insertSegment_linked [OF Some, of env] assms(1) have "st' = ensureToc g st" by simp
  with assms(2) show ?thesis
    by (auto simp: ensureToc_def update_conv' split: option.splits)
next
  case None
  with assms(1) obtain g st1 ps where
    g: "generateFolder env seg st = Some (Inr (g, st1))" "map_of (t_toc st1) p = Some ps"
       "st' = ensureToc g (st1\<lparr>t_toc := AList.update p (ps @ [g]) (t_toc st1),
                               titleIdMap := (titleIdMap st1)(Some seg \<mapsto> g)\<rparr>)"
    by (auto simp: insertSegment_def pushChild_def split: option.splits sum.splits if_splits)
  from g(1) have "t_toc st1 = t_toc st"
    by (auto simp: generateFolder_def split: option.splits sum.splits)
  with g(2,3) assms(2) show ?thesis
    by (auto simp: ensureToc_def update_conv' split: option.splits)
qed

lemma insertSegments_root:
  "foldR (insertSegment env) segs (st, p) = Some (Inr (st', f)) \<Longrightarrow>
   map_of (t_toc st) ''root'' = Some cs \<Longrightarrow>
   \<exists>more. map_of (t_toc st') ''root'' = Some (cs @ more)"
proof (induction segs arbitrary: st p cs)
  case Nil
  then show ?case by simp
next
  case (Cons seg segs)
  from Cons.prems(1) obtain st1 f1 where
    1: "insertSegment env seg (st, p) = Some (Inr (st1, f1))"
       "foldR (insertSegment env) segs (st1, f1) = Some (Inr (st', f))"
    by (auto split: option.splits sum.splits)
  from insertSegment_root [OF 1(1) Cons.prems(2)] obtain more where
    "map_of (t_toc st1) ''root'' = Some (cs @ more)" by blast
  from Cons.IH [OF 1(2) this] show ?case by auto
qed

lemma pushChild_root:
  assumes "pushChild p x st = Some (Inr st')" and "map_of (t_toc st) ''root'' = Some cs"
  shows "\<exists>more. map_of (t_toc st') ''root'' = Some (cs @ more)"
  using assms by (auto simp: pushChild_def update_conv' split: option.splits)

lemma insertToToc_root:
  assumes "insertToToc env x st = Some (Inr st')" and "map_of (t_toc st) ''root'' = Some cs"
  shows "\<exists>more. map_of (t_toc st') ''root'' = Some (cs @ more)"
proof -
  from assms(1) obtain m where m: "map_of (t_meta st) x = Some m"
    by (auto simp: insertToToc_def split: option.splits)
  show ?thesis
  proof (cases "truthy (m_folder m)")
    case False
    with m assms(1) have "pushChild ''root'' x st = Some (Inr st')"
      by (simp add: insertToToc_def)
    from pushChild_root [OF this assms(2)] show ?thesis .
  next
    case True
    with m assms(1) obtain st1 f where
      1: "foldR (insertSegment env) (splitRuns folderSep (orEmpty (m_folder m))) (st, ''root'') =
            Some (Inr (st1, f))" "pushChild f x st1 = Some (Inr st')"
      by (auto simp: insertToToc_def split: option.splits sum.splits)
    from insertSegments_root [OF 1(1) assms(2)] obtain more where
      "map_of (t_toc st1) ''root'' = Some (cs @ more)" by blast
    from pushChild_root [OF 1(2) this] show ?thesis by auto
  qed
qed

lemma addItem_root:
  assumes "addItem env x st = Some (Inr st')" and "map_of (t_toc st) ''root'' = Some cs"
  shows "\<exists>more. map_of (t_toc st') ''root'' = Some (cs @ more)"
proof (cases "x \<notin> referredIds st \<and> \<not> reserved x")
  case False
  with assms show ?thesis by (auto simp: addItem_def)
next
  case True
  with assms(1) obtain st1 where
    1: "insertToToc env x st = Some (Inr st1)"
       "st' = stripTransient x (st1\<lparr>titleIdMap := setTitle (t_meta st1) x (titleIdMap st1)\<rparr>)"
    by (auto simp: addItem_def split: option.splits sum.splits)
  from insertToToc_root [OF 1(1) assms(2)] 1(2) show ?thesis by simp
qed

lemma addItems_root:
  "foldR (addItem env) ks st = Some (Inr st') \<Longrightarrow> map_of (t_toc st) ''root'' = Some cs \<Longrightarrow>
   \<exists>more. map_of (t_toc st') ''root'' = Some (cs @ more)"
proof (induction ks arbitrary: st cs)
  case Nil
  then show ?case by simp
next
  case (Cons x ks)
  from Cons.prems(1) obtain st1 where
    1: "addItem env x st = Some (Inr st1)" "foldR (addItem env) ks st1 = Some (Inr st')"
    by (auto split: option.splits sum.splits)
  from addItem_root [OF 1(1) Cons.prems(2)] obtain more where
    "map_of (t_toc st1) ''root'' = Some (cs @ more)" by blast
  from Cons.IH [OF 1(2) this] show ?case by auto
qed

lemma pruneKeys_root:
  "map_of (t_toc st) ''root'' = Some cs \<Longrightarrow>
   map_of (t_toc (fold pruneKey ks st)) ''root'' =
     Some (if ''root'' \<in> set ks then filter (keepRef (t_meta st)) cs else cs)"
  by (simp add: fold_pruneKey_toc prunedChildren_def reserved_def)

lemma fixMetaAndToc_root:
  assumes "map_of toc ''root'' \<noteq> None" and "fixMetaAndToc env st toc = Some (Inr (ms', toc'))"
  shows "map_of toc' ''root'' \<noteq> None"
proof (cases "fixMeta env st")
  case (Next st1)
  with assms(2) obtain t where
    t: "fixToc env (metas st1) toc (reads st1) = Some (Inr t)" "toc' = t_toc t"
    by (auto simp: fixMetaAndToc_def split: option.splits sum.splits)
  from assms(1) obtain cs where cs: "map_of toc ''root'' = Some cs" by blast
  let ?st0 = "startToc (metas st1) toc (reads st1)"
  have "map_of (t_toc (pruneToc ?st0)) ''root'' = Some (filter (keepRef (metas st1)) cs)"
    using cs by (simp add: pruneToc_toc prunedChildren_def reserved_def)
  moreover from t(1) have "foldR (addItem env)
      (sort_key (sortToken (t_meta (pruneToc ?st0))) (map fst (t_meta (pruneToc ?st0))))
      (pruneToc ?st0) = Some (Inr t)"
    by (simp add: fixToc_def addNewItems_def)
  ultimately obtain more where
    "map_of (t_toc t) ''root'' = Some (filter (keepRef (metas st1)) cs @ more)"
    using addItems_root by blast
  with t(2) show ?thesis by simp
next
  case (Return st1)
  with assms show ?thesis by (auto simp: fixMetaAndToc_def)
next
  case (Throw e)
  with assms show ?thesis by (auto simp: fixMetaAndToc_def)
qed

subsection \<open>The key root\<close>

lemma idsOk_exampleEnv: "idsOk exampleEnv"
proof -
  have "inj (\<lambda>n::nat. replicate n (CHR ''1''))"
    by (rule injI) (metis length_replicate)
  then show ?thesis
    by (simp add: idsOk_def exampleEnv_def)
qed

lemma folderHint_fixMeta:
  "fixMeta exampleEnv folderHintExample =
      Next (folderHintExample\<lparr>metas :=
        [(''item1'', getDefaultMeta\<lparr>m_title := Some ''Page'', m_type := Some ''bookmark'',
                   m_create := Some ''11111'', m_modify := Some ''11111'', m_source := Some [],
                   m_icon := Some [], m_comment := Some [], m_folder := Some ''Work''\<rparr>)],
        reads := Suc 0\<rparr>)"
  by (simp add: fixMeta_def fixItem_def fixRest_def fallbackFields_def fallbackTitle_def
      fallbackReads_def exampleEnv_def folderHintExample_def getDefaultMeta_def
      truthy_def orEmpty_def js_or_def Let_def eval_nat_numeral)

lemma folderHint_fixToc:
  "fixToc exampleEnv
        [(''item1'', getDefaultMeta\<lparr>m_title := Some ''Page'', m_type := Some ''bookmark'',
                   m_create := Some ''11111'', m_modify := Some ''11111'', m_source := Some [],
                   m_icon := Some [], m_comment := Some [], m_folder := Some ''Work''\<rparr>)]
        initialToc (Suc 0) =
      Some (Inr \<lparr>t_meta =
        [(''item1'', getDefaultMeta\<lparr>m_title := Some ''Page'', m_type := Some ''bookmark'',
                   m_create := Some ''11111'', m_modify := Some ''11111'', m_source := Some [],
                   m_icon := Some [], m_comment := Some []\<rparr>),
         (''111111'', folderMeta ''Work'' ''111111'')],
        t_toc = [(''root'', [''111111'']), (''111111'', [''item1''])],
        referredIds = {},
        titleIdMap = [Some ''Work'' \<mapsto> ''111111'', Some ''Page'' \<mapsto> ''item1''],
        t_reads = 2\<rparr>)"
  by (simp add: fixToc_def startToc_def initialToc_def pruneToc_def pruneKey_def
      addNewItems_def addItem_def insertToToc_def insertSegment_def linkedFolder_def
      generateFolder_def getUniqueId_def pushChild_def ensureToc_def stripTransient_def
      setTitle_def sortToken_def reserved_def inherited_def folderSep_def
      exampleEnv_def getDefaultMeta_def folderMeta_def truthy_def orEmpty_def Let_def
      eval_nat_numeral)

lemma folderHint_run:
  "fixMetaAndToc exampleEnv folderHintExample initialToc =
     Some (Inr ([(''item1'', getDefaultMeta\<lparr>m_title := Some ''Page'', m_type := Some ''bookmark'',
                   m_create := Some ''11111'', m_modify := Some ''11111'', m_source := Some [],
                   m_icon := Some [], m_comment := Some []\<rparr>),
                 (''111111'', folderMeta ''Work'' ''111111'')],
                [(''root'', [''111111'']), (''111111'', [''item1''])]))"
  by (simp add: fixMetaAndToc_def folderHint_fixMeta folderHint_fixToc)

text \<open>
  C9: the key \<^verbatim>\<open>root\<close> is in the table of contents from the start of a run to the end of
  the two passes over the table. The table starts with \<^verbatim>\<open>root\<close> and the empty list
  (lines 394 to 400). Whatever keys the pruning loop has visited, \<^verbatim>\<open>root\<close> still has a
  list, which is its old list or the filtered one: neither removal applies to it. Adding
  items (one call of \<^verbatim>\<open>insertToToc\<close>, or the loop over any keys) only appends to the list
  of \<^verbatim>\<open>root\<close>. And the callback of lines 751 to 911, started with the key present, ends
  with the key present.
\<close>

theorem root_always_present:
  "map_of initialToc ''root'' = Some [] \<and>
   (\<forall>cs. map_of (t_toc st) ''root'' = Some cs \<longrightarrow>
      (\<forall>ks. map_of (t_toc (fold pruneKey ks st)) ''root'' =
         Some (if ''root'' \<in> set ks then filter (keepRef (t_meta st)) cs else cs)) \<and>
      (\<forall>x st'. insertToToc env x st = Some (Inr st') \<longrightarrow>
         (\<exists>more. map_of (t_toc st') ''root'' = Some (cs @ more))) \<and>
      (\<forall>ks st'. foldR (addItem env) ks st = Some (Inr st') \<longrightarrow>
         (\<exists>more. map_of (t_toc st') ''root'' = Some (cs @ more)))) \<and>
   (map_of toc ''root'' \<noteq> None \<longrightarrow>
      (\<forall>ms' toc'. fixMetaAndToc env fs toc = Some (Inr (ms', toc')) \<longrightarrow>
         map_of toc' ''root'' \<noteq> None))"
proof (intro conjI allI impI)
  show "map_of initialToc ''root'' = Some []"
    by (simp add: initialToc_def)
next
  fix cs ks assume "map_of (t_toc st) ''root'' = Some cs"
  then show "map_of (t_toc (fold pruneKey ks st)) ''root'' =
         Some (if ''root'' \<in> set ks then filter (keepRef (t_meta st)) cs else cs)"
    by (rule pruneKeys_root)
next
  fix cs x st'
  assume "map_of (t_toc st) ''root'' = Some cs" and "insertToToc env x st = Some (Inr st')"
  then show "\<exists>more. map_of (t_toc st') ''root'' = Some (cs @ more)"
    by (rule insertToToc_root [rotated])
next
  fix cs ks st'
  assume "map_of (t_toc st) ''root'' = Some cs" and "foldR (addItem env) ks st = Some (Inr st')"
  then show "\<exists>more. map_of (t_toc st') ''root'' = Some (cs @ more)"
    by (rule addItems_root [rotated])
next
  fix ms' toc'
  assume "map_of toc ''root'' \<noteq> None" and "fixMetaAndToc env fs toc = Some (Inr (ms', toc'))"
  then show "map_of toc' ''root'' \<noteq> None"
    by (rule fixMetaAndToc_root)
qed

text \<open>
  The run on \<open>folderHintExample\<close>: the table starts as \<^verbatim>\<open>{root: []}\<close>, and the callback
  ends with the folder appended to the list of \<^verbatim>\<open>root\<close>.
\<close>

theorem root_always_present_witness:
  "map_of initialToc ''root'' = Some [] \<and>
   fixMetaAndToc exampleEnv folderHintExample initialToc =
     Some (Inr ([(''item1'', getDefaultMeta\<lparr>m_title := Some ''Page'', m_type := Some ''bookmark'',
                   m_create := Some ''11111'', m_modify := Some ''11111'', m_source := Some [],
                   m_icon := Some [], m_comment := Some []\<rparr>),
                 (''111111'', folderMeta ''Work'' ''111111'')],
                [(''root'', [''111111'']), (''111111'', [''item1''])])) \<and>
   map_of [(''root'', [''111111'']), (''111111'', [''item1''])] ''root'' \<noteq> None"
proof -
  have "map_of initialToc ''root'' \<noteq> None"
    by (simp add: initialToc_def)
  with root_always_present
      [where st = folderHintState and toc = initialToc and env = exampleEnv
         and fs = folderHintExample]
    folderHint_run
  show ?thesis by blast
qed

subsection \<open>Integrity of the table of contents\<close>

lemma integrity_fixToc:
  "fixToc exampleEnv integrityMetas integrityToc 0 =
     Some (Inr \<lparr>t_meta =
        [(''a'', getDefaultMeta\<lparr>m_title := Some ''A''\<rparr>),
         (''b'', getDefaultMeta\<lparr>m_title := Some ''B''\<rparr>),
         (''11111'', folderMeta ''Work'' ''11111'')],
        t_toc = [(''root'', [''a'', ''11111'']), (''11111'', [''b''])],
        referredIds = {''a''},
        titleIdMap = [Some ''A'' \<mapsto> ''a'', Some ''Work'' \<mapsto> ''11111'', Some ''B'' \<mapsto> ''b''],
        t_reads = Suc 0\<rparr>)"
  by (simp add: fixToc_def startToc_def integrityMetas_def integrityToc_def pruneToc_def
      pruneKey_def keepRef_def
      addNewItems_def addItem_def insertToToc_def insertSegment_def linkedFolder_def
      generateFolder_def getUniqueId_def pushChild_def ensureToc_def stripTransient_def
      setTitle_def sortToken_def reserved_def inherited_def folderSep_def
      exampleEnv_def getDefaultMeta_def folderMeta_def truthy_def orEmpty_def Let_def
      eval_nat_numeral)

text \<open>
  C1, as the code has it: the two passes over the table of contents (lines 834 to 910)
  return, and in the table they leave
  \<^item> every child has a metadata entry or is one of the names that every object inherits,
    which the test \<^verbatim>\<open>!scrapbookData.meta[refId]\<close> takes for an entry;
  \<^item> every key other than \<^verbatim>\<open>root\<close> and \<^verbatim>\<open>hidden\<close> has a metadata entry, or is such a
    name, and has a non-empty list;
  \<^item> every metadata entry, of whatever type, is a child at least once or is \<^verbatim>\<open>root\<close> or
    \<^verbatim>\<open>hidden\<close>;
  \<^item> an identifier that the incoming table lists twice stays listed twice; when the
    incoming table lists no identifier twice, every such entry is a child exactly once.

  The hypotheses: \<^verbatim>\<open>scrapbook.dateToId\<close> is injective and \<^verbatim>\<open>scrapbook.idToDate\<close> inverts
  it, the incoming table has the key \<^verbatim>\<open>root\<close>, and no key of the metadata is an inherited
  name.
\<close>

theorem fixToc_integrity:
  assumes "idsOk env" and "map_of toc ''root'' \<noteq> None"
    and "\<forall>k. map_of ms k \<noteq> None \<longrightarrow> \<not> inherited k"
  shows "\<exists>st'. fixToc env ms toc n = Some (Inr st') \<and>
     (\<forall>k cs. map_of (t_toc st') k = Some cs \<longrightarrow>
        (\<forall>c\<in>set cs. map_of (t_meta st') c \<noteq> None \<or> inherited c) \<and>
        (\<not> reserved k \<longrightarrow> (map_of (t_meta st') k \<noteq> None \<or> inherited k) \<and> cs \<noteq> [])) \<and>
     (\<forall>k. map_of (t_meta st') k \<noteq> None \<longrightarrow> reserved k \<or> k \<in> tocChildren (t_toc st')) \<and>
     (noDup toc \<longrightarrow> distinct (map fst ms) \<longrightarrow>
        (\<forall>k. map_of (t_meta st') k \<noteq> None \<longrightarrow> reserved k \<or> occursOnce (t_toc st') k))"
proof -
  let ?st0 = "pruneToc (startToc ms toc n)"
  let ?ks = "sort_key (sortToken (t_meta ?st0)) (map fst (t_meta ?st0))"
  have inv: "tocInv ''root'' ?st0"
    using assms(2,3) by (intro pruneToc_tocInv) (simp_all add: startToc_def)
  have titles: "titlesOk ?st0"
    by (intro pruneToc_titlesOk) (simp add: startToc_def)
  have refeq: "referredIds ?st0 = tocChildren (t_toc ?st0)"
    by (intro pruneToc_referred) (simp add: startToc_def)
  then have ref: "referredIds ?st0 \<subseteq> tocChildren (t_toc ?st0)" by simp
  have meta0: "t_meta ?st0 = ms"
    by (simp add: startToc_def)
  have ks: "\<forall>k\<in>set ?ks. map_of (t_meta ?st0) k \<noteq> None"
    unfolding meta0 by (simp add: map_of_eq_None_iff)
  from addItems_inv [OF assms(1) inv titles ks ref] obtain st' where
    st': "foldR (addItem env) ?ks ?st0 = Some (Inr st')" "tocInv ''root'' st'" "grows ?st0 st'"
      "\<forall>k\<in>set ?ks. reserved k \<or> k \<in> tocChildren (t_toc st')"
    by blast
  have a: "\<forall>k cs. map_of (t_toc st') k = Some cs \<longrightarrow>
        (\<forall>c\<in>set cs. map_of (t_meta st') c \<noteq> None \<or> inherited c) \<and>
        (\<not> reserved k \<longrightarrow> (map_of (t_meta st') k \<noteq> None \<or> inherited k) \<and> cs \<noteq> [])"
  proof (intro allI impI conjI ballI)
    fix k cs c assume k: "map_of (t_toc st') k = Some cs" and c: "c \<in> set cs"
    from tocInv_child [OF st'(2) k c] show "map_of (t_meta st') c \<noteq> None \<or> inherited c"
      by blast
  next
    fix k cs assume k: "map_of (t_toc st') k = Some cs" and r: "\<not> reserved k"
    from tocInv_key [OF st'(2) k r] show "map_of (t_meta st') k \<noteq> None \<or> inherited k"
      by blast
    show "cs \<noteq> []"
    proof
      assume "cs = []"
      with k tocInv_empty [OF st'(2), of k] r show False
        by (auto simp: reserved_def)
    qed
  qed
  have c: "\<forall>k. map_of (t_meta st') k \<noteq> None \<longrightarrow> reserved k \<or> k \<in> tocChildren (t_toc st')"
  proof (intro allI impI)
    fix k assume "map_of (t_meta st') k \<noteq> None"
    with st'(3) have "map_of (t_meta ?st0) k \<noteq> None \<or> k \<in> tocChildren (t_toc st')"
      unfolding grows_def by blast
    then show "reserved k \<or> k \<in> tocChildren (t_toc st')"
    proof
      assume "map_of (t_meta ?st0) k \<noteq> None"
      then have "k \<in> set ?ks"
        unfolding meta0 by (simp add: map_of_eq_None_iff)
      with st'(4) show ?thesis by blast
    qed simp
  qed
  have d: "\<forall>k. map_of (t_meta st') k \<noteq> None \<longrightarrow> reserved k \<or> occursOnce (t_toc st') k"
    if nd: "noDup toc" and dist: "distinct (map fst ms)"
  proof -
    have nd0: "noDup (t_toc ?st0)"
      using nd by (intro pruneToc_noDup) (simp add: startToc_def)
    have dks: "distinct ?ks" unfolding meta0 using dist by simp
    have new: "\<forall>k\<in>set ?ks. k \<in> tocChildren (t_toc ?st0) \<longrightarrow> k \<in> referredIds ?st0"
      using refeq by simp
    have "noDup (t_toc st')"
      by (rule addItems_noDup [OF assms(1) inv titles ks ref dks new nd0 st'(1)])
    with c show ?thesis
      by (blast intro: noDup_occursOnce)
  qed
  have "fixToc env ms toc n = Some (Inr st')"
    using st'(1) unfolding fixToc_def addNewItems_def .
  with a c d show ?thesis
    by blast
qed

text \<open>
  The run on \<open>integrityMetas\<close> and \<open>integrityToc\<close>: the reference \<^verbatim>\<open>ghost\<close> and the key
  \<^verbatim>\<open>stale\<close> are removed, the folder \<^verbatim>\<open>Work\<close> is made for \<^verbatim>\<open>b\<close>, and each of the three
  entries is a child exactly once.
\<close>

theorem fixToc_integrity_witness:
  "idsOk exampleEnv \<and> map_of integrityToc ''root'' \<noteq> None \<and>
   (\<forall>k. \<not> (map_of integrityMetas k \<noteq> None \<and> inherited k)) \<and>
   noDup integrityToc \<and> distinct (map fst integrityMetas) \<and>
   (\<exists>st'. fixToc exampleEnv integrityMetas integrityToc 0 = Some (Inr st') \<and>
      t_toc st' = [(''root'', [''a'', ''11111'']), (''11111'', [''b''])] \<and>
      map fst (t_meta st') = [''a'', ''b'', ''11111''] \<and>
      (\<forall>k. map_of (t_meta st') k \<noteq> None \<longrightarrow> reserved k \<or> occursOnce (t_toc st') k))"
proof -
  have h1: "idsOk exampleEnv" by (rule idsOk_exampleEnv)
  have h2: "map_of integrityToc ''root'' \<noteq> None"
    by (simp add: integrityToc_def)
  have h3: "\<forall>k. map_of integrityMetas k \<noteq> None \<longrightarrow> \<not> inherited k"
    by (simp add: integrityMetas_def inherited_def)
  have h4: "noDup integrityToc"
    unfolding noDup_def integrityToc_def
    by (auto split: if_splits)
  have h5: "distinct (map fst integrityMetas)"
    by (simp add: integrityMetas_def)
  from fixToc_integrity [OF h1 h2 h3, of 0] h4 h5 obtain st' where
    st': "fixToc exampleEnv integrityMetas integrityToc 0 = Some (Inr st')"
      "\<forall>k. map_of (t_meta st') k \<noteq> None \<longrightarrow> reserved k \<or> occursOnce (t_toc st') k"
    by blast
  from st'(1) have tt: "t_toc st' = [(''root'', [''a'', ''11111'']), (''11111'', [''b''])]"
    "map fst (t_meta st') = [''a'', ''b'', ''11111'']"
    by (auto simp: integrity_fixToc)
  have h3': "\<forall>k. \<not> (map_of integrityMetas k \<noteq> None \<and> inherited k)"
    using h3 by blast
  have "\<exists>st'. fixToc exampleEnv integrityMetas integrityToc 0 = Some (Inr st') \<and>
      t_toc st' = [(''root'', [''a'', ''11111'']), (''11111'', [''b''])] \<and>
      map fst (t_meta st') = [''a'', ''b'', ''11111''] \<and>
      (\<forall>k. map_of (t_meta st') k \<noteq> None \<longrightarrow> reserved k \<or> occursOnce (t_toc st') k)"
    using st' tt by (intro exI [of _ st'] conjI)
  with h1 h2 h3' h4 h5 show ?thesis
    by (intro conjI)
qed

lemma listedTwice_fixMeta:
  "fixMeta exampleEnv listedTwiceExample =
     Next (listedTwiceExample\<lparr>metas :=
       [(''a'', getDefaultMeta\<lparr>m_title := Some ''A'', m_type := Some ''bookmark'',
                 m_create := Some ''11111'', m_modify := Some ''11111'', m_source := Some [],
                 m_icon := Some [], m_comment := Some []\<rparr>)],
       reads := Suc 0\<rparr>)"
  by (simp add: fixMeta_def fixItem_def fixRest_def fallbackFields_def fallbackTitle_def
      fallbackReads_def exampleEnv_def listedTwiceExample_def getDefaultMeta_def
      truthy_def orEmpty_def js_or_def Let_def eval_nat_numeral)

lemma listedTwice_fixToc:
  "fixToc exampleEnv
       [(''a'', getDefaultMeta\<lparr>m_title := Some ''A'', m_type := Some ''bookmark'',
                 m_create := Some ''11111'', m_modify := Some ''11111'', m_source := Some [],
                 m_icon := Some [], m_comment := Some []\<rparr>)]
       [(''root'', [''a'', ''a''])] (Suc 0) =
     Some (Inr \<lparr>t_meta =
       [(''a'', getDefaultMeta\<lparr>m_title := Some ''A'', m_type := Some ''bookmark'',
                 m_create := Some ''11111'', m_modify := Some ''11111'', m_source := Some [],
                 m_icon := Some [], m_comment := Some []\<rparr>)],
       t_toc = [(''root'', [''a'', ''a''])],
       referredIds = {''a''},
       titleIdMap = [Some ''A'' \<mapsto> ''a''],
       t_reads = Suc 0\<rparr>)"
  by (simp add: fixToc_def startToc_def pruneToc_def pruneKey_def keepRef_def
      addNewItems_def addItem_def stripTransient_def
      setTitle_def sortToken_def reserved_def inherited_def
      getDefaultMeta_def orEmpty_def Let_def)

lemma noItems_fixToc:
  "fixToc exampleEnv [] [(''root'', [''constructor''])] 0 =
     Some (Inr \<lparr>t_meta = [], t_toc = [(''root'', [''constructor''])],
       referredIds = {''constructor''}, titleIdMap = [None \<mapsto> ''constructor''],
       t_reads = 0\<rparr>)"
  by (simp add: fixToc_def startToc_def pruneToc_def pruneKey_def keepRef_def
      addNewItems_def setTitle_def reserved_def inherited_def Let_def)

text \<open>
  Two runs of the callback of lines 751 to 911 against C1 as the specification has it. In
  the first the table that was read lists the bookmark \<^verbatim>\<open>a\<close> twice under \<^verbatim>\<open>root\<close>: the
  filter of line 846 keeps both references, and the bookmark ends as a child twice. In the
  second the table lists \<^verbatim>\<open>constructor\<close>, for which there is no entry: as
  \<^verbatim>\<open>scrapbookData.meta['constructor']\<close> is the inherited function, the reference is kept.
\<close>

theorem listed_twice_stays_twice:
  "fixMetaAndToc exampleEnv listedTwiceExample [(''root'', [''a'', ''a''])] =
     Some (Inr ([(''a'', getDefaultMeta\<lparr>m_title := Some ''A'', m_type := Some ''bookmark'',
                   m_create := Some ''11111'', m_modify := Some ''11111'', m_source := Some [],
                   m_icon := Some [], m_comment := Some []\<rparr>)],
                [(''root'', [''a'', ''a''])])) \<and>
   count_list [''a'', ''a''] ''a'' = 2 \<and>
   \<not> occursOnce [(''root'', [''a'', ''a''])] ''a'' \<and>
   fixMetaAndToc exampleEnv noItemsExample [(''root'', [''constructor''])] =
     Some (Inr ([], [(''root'', [''constructor''])])) \<and>
   map_of ([] :: (string \<times> meta) list) ''constructor'' = None"
proof -
  have a: "fixMetaAndToc exampleEnv listedTwiceExample [(''root'', [''a'', ''a''])] =
     Some (Inr ([(''a'', getDefaultMeta\<lparr>m_title := Some ''A'', m_type := Some ''bookmark'',
                   m_create := Some ''11111'', m_modify := Some ''11111'', m_source := Some [],
                   m_icon := Some [], m_comment := Some []\<rparr>)],
                [(''root'', [''a'', ''a''])]))"
    by (simp add: fixMetaAndToc_def listedTwice_fixMeta listedTwice_fixToc)
  have b: "count_list [''a'', ''a''] ''a'' = 2"
    by simp
  have c: "\<not> occursOnce [(''root'', [''a'', ''a''])] ''a''"
    unfolding occursOnce_def by (auto split: if_splits)
  have "fixMeta exampleEnv noItemsExample = Next noItemsExample"
    by (simp add: fixMeta_def noItemsExample_def)
  moreover have "metas noItemsExample = []" "reads noItemsExample = 0"
    by (simp_all add: noItemsExample_def)
  ultimately have d: "fixMetaAndToc exampleEnv noItemsExample [(''root'', [''constructor''])] =
     Some (Inr ([], [(''root'', [''constructor''])]))"
    by (simp add: fixMetaAndToc_def noItems_fixToc)
  from a b c d show ?thesis by simp
qed

subsection \<open>The folder hint\<close>








subsection \<open>The comparison with the old files\<close>

lemma bakPath_not_tree: "\<not> startsWith (bakPath p) ''tree/''"
  by (simp add: startsWith_def bakPath_def)

lemma bakPath_inj:
  assumes "startsWith p ''tree/''" and "startsWith q ''tree/''" and "bakPath p = bakPath q"
  shows "p = q"
proof -
  have l: "length ''tree/'' = 5" by simp
  from assms(3) have d: "drop 5 p = drop 5 q" unfolding bakPath_def l by simp
  from assms(1,2) have t: "take 5 p = take 5 q" unfolding startsWith_def l by simp
  have "p = take 5 p @ drop 5 p" by simp
  also have "\<dots> = take 5 q @ drop 5 q" by (simp only: d t)
  also have "\<dots> = q" by simp
  finally show ?thesis .
qed

lemma diffEntry_cases:
  "map_of (diffEntry sha1 tf (p, obj) z) =
     (if compared tf p obj
      then (if sha1 (f_bytes (the (tf p))) \<noteq> sha1 (z_bytes obj)
            then (map_of z)(bakPath p \<mapsto> \<lparr>z_dir = False, z_bytes = f_bytes (the (tf p))\<rparr>)
            else (map_of z)(p := None))
      else map_of z)"
  by (auto simp: diffEntry_def compared_def zipAddFile_def update_conv' delete_conv'
      split: option.splits)

lemma fold_diffEntry_frame:
  assumes "\<forall>(p, obj) \<in> set es. compared tf p obj \<longrightarrow> p \<noteq> q \<and> bakPath p \<noteq> q"
  shows "map_of (fold (diffEntry sha1 tf) es z) q = map_of z q"
  using assms
proof (induction es arbitrary: z)
  case Nil
  then show ?case by simp
next
  case (Cons e es)
  obtain p obj where e: "e = (p, obj)" by (cases e)
  from Cons.prems have rest: "\<forall>(p, obj) \<in> set es. compared tf p obj \<longrightarrow> p \<noteq> q \<and> bakPath p \<noteq> q"
    by simp
  from Cons.prems e have here: "compared tf p obj \<longrightarrow> p \<noteq> q \<and> bakPath p \<noteq> q"
    by simp
  have "map_of (fold (diffEntry sha1 tf) (e # es) z) q =
        map_of (diffEntry sha1 tf (p, obj) z) q"
    using Cons.IH [OF rest] e by simp
  also have "\<dots> = map_of z q"
    using here by (auto simp: diffEntry_cases)
  finally show ?case .
qed

lemma diffBackup_entry:
  assumes dist: "distinct (map fst zp)" and mem: "(p, obj) \<in> set zp"
    and cmp: "compared tf p obj" and old: "tf p = Some oldFile"
  shows "map_of (diffBackup sha1 tf zp) p =
           (if sha1 (f_bytes oldFile) = sha1 (z_bytes obj) then None else Some obj)"
    and "map_of (diffBackup sha1 tf zp) (bakPath p) =
           (if sha1 (f_bytes oldFile) = sha1 (z_bytes obj) then map_of zp (bakPath p)
            else Some \<lparr>z_dir = False, z_bytes = f_bytes oldFile\<rparr>)"
proof -
  from mem obtain es1 es2 where es: "zp = es1 @ (p, obj) # es2"
    by (meson split_list)
  from dist es have np: "p \<notin> fst ` set es1" "p \<notin> fst ` set es2"
    by auto
  from cmp have tree: "startsWith p ''tree/''" by (simp add: compared_def)
  have other: "p' \<noteq> p \<and> bakPath p' \<noteq> p \<and> p' \<noteq> bakPath p \<and> bakPath p' \<noteq> bakPath p"
    if "(p', obj') \<in> set es1 \<union> set es2" "compared tf p' obj'" for p' obj'
  proof -
    from that(1) np have 1: "p' \<noteq> p" by force
    from that(2) have t': "startsWith p' ''tree/''" by (simp add: compared_def)
    from tree bakPath_not_tree [of p'] have 2: "bakPath p' \<noteq> p" by auto
    from t' bakPath_not_tree [of p] have 3: "p' \<noteq> bakPath p" by auto
    from bakPath_inj [OF t' tree] 1 have 4: "bakPath p' \<noteq> bakPath p" by auto
    from 1 2 3 4 show ?thesis by simp
  qed
  have f1: "map_of (fold (diffEntry sha1 tf) es1 z) q = map_of z q"
    if "q = p \<or> q = bakPath p" for z q
    using that other by (intro fold_diffEntry_frame) auto
  have f2: "map_of (fold (diffEntry sha1 tf) es2 z) q = map_of z q"
    if "q = p \<or> q = bakPath p" for z q
    using that other by (intro fold_diffEntry_frame) auto
  have zp: "map_of zp p = Some obj"
    using dist mem by simp
  have pb: "p \<noteq> bakPath p"
    using tree bakPath_not_tree [of p] by auto
  have run: "diffBackup sha1 tf zp =
      fold (diffEntry sha1 tf) es2 (diffEntry sha1 tf (p, obj) (fold (diffEntry sha1 tf) es1 zp))"
    unfolding diffBackup_def by (subst es) simp
  show "map_of (diffBackup sha1 tf zp) p =
           (if sha1 (f_bytes oldFile) = sha1 (z_bytes obj) then None else Some obj)"
    unfolding run using cmp old zp pb by (simp add: f2 f1 diffEntry_cases)
  show "map_of (diffBackup sha1 tf zp) (bakPath p) =
           (if sha1 (f_bytes oldFile) = sha1 (z_bytes obj) then map_of zp (bakPath p)
            else Some \<lparr>z_dir = False, z_bytes = f_bytes oldFile\<rparr>)"
    unfolding run using cmp old pb by (simp add: f2 f1 diffEntry_cases)
qed

lemma diffBackup_not_compared:
  assumes dist: "distinct (map fst zp)" and mem: "(p, obj) \<in> set zp"
    and ncmp: "\<not> compared tf p obj" and tree: "startsWith p ''tree/''"
  shows "map_of (diffBackup sha1 tf zp) p = Some obj"
proof -
  have "map_of (fold (diffEntry sha1 tf) zp zp) p = map_of zp p"
  proof (intro fold_diffEntry_frame, clarify)
    fix p' obj' assume m: "(p', obj') \<in> set zp" and c: "compared tf p' obj'"
    have "p' \<noteq> p"
    proof
      assume "p' = p"
      with dist mem m have "obj' = obj"
        by (metis eq_key_imp_eq_value)
      with c \<open>p' = p\<close> ncmp show False by simp
    qed
    moreover from tree bakPath_not_tree [of p'] have "bakPath p' \<noteq> p" by auto
    ultimately show "p' \<noteq> p \<and> bakPath p' \<noteq> p" by simp
  qed
  with dist mem show ?thesis
    by (simp add: diffBackup_def)
qed

text \<open>
  C6, as the code has it. An entry of the zip that is a file under \<^verbatim>\<open>tree/\<close> is left as
  it is when it is under \<^verbatim>\<open>tree/cache/\<close> or there is no old file at its path. Otherwise
  the hashes of the old and of the new content are compared: when they are equal the path
  is removed from the zip and nothing is put at the backup path; when they differ the
  entry stays and the old content is put at the backup path, \<^verbatim>\<open>tree.bak/\<close> followed by the
  path without its \<^verbatim>\<open>tree/\<close>. The subtree that is left out is \<^verbatim>\<open>tree/cache/\<close>; an entry
  under \<^verbatim>\<open>tree/favicon/\<close> is compared like any other.
\<close>

theorem diffBackup_outcome:
  assumes "distinct (map fst zp)" and "(p, obj) \<in> set zp" and "\<not> z_dir obj"
    and "startsWith p ''tree/''"
  shows
    "(startsWith p ''tree/cache/'' \<or> treeFiles p = None \<longrightarrow>
        map_of (diffBackup sha1 treeFiles zp) p = Some obj) \<and>
     (\<forall>oldFile. \<not> startsWith p ''tree/cache/'' \<longrightarrow> treeFiles p = Some oldFile \<longrightarrow>
        (sha1 (f_bytes oldFile) = sha1 (z_bytes obj) \<longrightarrow>
           map_of (diffBackup sha1 treeFiles zp) p = None \<and>
           map_of (diffBackup sha1 treeFiles zp) (bakPath p) = map_of zp (bakPath p)) \<and>
        (sha1 (f_bytes oldFile) \<noteq> sha1 (z_bytes obj) \<longrightarrow>
           map_of (diffBackup sha1 treeFiles zp) p = Some obj \<and>
           map_of (diffBackup sha1 treeFiles zp) (bakPath p) =
             Some \<lparr>z_dir = False, z_bytes = f_bytes oldFile\<rparr>))"
proof (intro conjI allI impI)
  assume "startsWith p ''tree/cache/'' \<or> treeFiles p = None"
  then have "\<not> compared treeFiles p obj"
    by (auto simp: compared_def)
  from diffBackup_not_compared [OF assms(1,2) this assms(4)]
  show "map_of (diffBackup sha1 treeFiles zp) p = Some obj" .
next
  fix oldFile
  assume a: "\<not> startsWith p ''tree/cache/''" "treeFiles p = Some oldFile"
  with assms(3,4) have c: "compared treeFiles p obj"
    by (simp add: compared_def)
  note e = diffBackup_entry [OF assms(1,2) c a(2), of sha1]
  {
    assume "sha1 (f_bytes oldFile) = sha1 (z_bytes obj)"
    with e show "map_of (diffBackup sha1 treeFiles zp) p = None"
      and "map_of (diffBackup sha1 treeFiles zp) (bakPath p) = map_of zp (bakPath p)"
      by simp_all
  }
  {
    assume "sha1 (f_bytes oldFile) \<noteq> sha1 (z_bytes obj)"
    with e show "map_of (diffBackup sha1 treeFiles zp) p = Some obj"
      and "map_of (diffBackup sha1 treeFiles zp) (bakPath p) =
             Some \<lparr>z_dir = False, z_bytes = f_bytes oldFile\<rparr>"
      by simp_all
  }
qed

lemma diffZip_result:
  "diffBackup exampleSha diffTree diffZip =
     [(''tree/meta.js'', \<lparr>z_dir = False, z_bytes = ''NEWER''\<rparr>),
      (''tree.bak/meta.js'', \<lparr>z_dir = False, z_bytes = ''OLD''\<rparr>)]"
  by (simp add: diffBackup_def diffEntry_def diffZip_def diffTree_def exampleSha_def
      zipAddFile_def bakPath_def startsWith_def)

text \<open>
  The comparison on \<open>diffZip\<close>: \<^verbatim>\<open>tree/meta.js\<close> has changed, so it stays and the old
  content goes to \<^verbatim>\<open>tree.bak/meta.js\<close>; \<^verbatim>\<open>tree/toc.js\<close> has not, so it is removed.
\<close>

theorem diffBackup_outcome_witness:
  "distinct (map fst diffZip) \<and>
   (''tree/meta.js'', \<lparr>z_dir = False, z_bytes = ''NEWER''\<rparr>) \<in> set diffZip \<and>
   startsWith ''tree/meta.js'' ''tree/'' \<and> \<not> startsWith ''tree/meta.js'' ''tree/cache/'' \<and>
   diffTree ''tree/meta.js'' =
     Some \<lparr>f_name = ''meta.js'', f_type = ''application/javascript'', f_bytes = ''OLD''\<rparr> \<and>
   exampleSha ''OLD'' \<noteq> exampleSha ''NEWER'' \<and>
   map_of (diffBackup exampleSha diffTree diffZip) ''tree/meta.js'' =
     Some \<lparr>z_dir = False, z_bytes = ''NEWER''\<rparr> \<and>
   map_of (diffBackup exampleSha diffTree diffZip) (bakPath ''tree/meta.js'') =
     Some \<lparr>z_dir = False, z_bytes = ''OLD''\<rparr> \<and>
   bakPath ''tree/meta.js'' = ''tree.bak/meta.js'' \<and>
   diffBackup exampleSha diffTree diffZip =
     [(''tree/meta.js'', \<lparr>z_dir = False, z_bytes = ''NEWER''\<rparr>),
      (''tree.bak/meta.js'', \<lparr>z_dir = False, z_bytes = ''OLD''\<rparr>)]"
proof -
  let ?obj = "\<lparr>z_dir = False, z_bytes = ''NEWER''\<rparr>"
  let ?old = "\<lparr>f_name = ''meta.js'', f_type = ''application/javascript'', f_bytes = ''OLD''\<rparr>"
  have h1: "distinct (map fst diffZip)"
    by (simp add: diffZip_def)
  have h2: "(''tree/meta.js'', ?obj) \<in> set diffZip"
    by (simp add: diffZip_def)
  have h3: "\<not> z_dir ?obj" by simp
  have h4: "startsWith ''tree/meta.js'' ''tree/''"
    by (simp add: startsWith_def)
  have h5: "\<not> startsWith ''tree/meta.js'' ''tree/cache/''"
    by (simp add: startsWith_def)
  have h6: "diffTree ''tree/meta.js'' = Some ?old"
    by (simp add: diffTree_def)
  have h7: "exampleSha (f_bytes ?old) \<noteq> exampleSha (z_bytes ?obj)"
    by (simp add: exampleSha_def)
  have h8: "bakPath ''tree/meta.js'' = ''tree.bak/meta.js''"
    by (simp add: bakPath_def)
  from diffBackup_outcome [OF h1 h2 h3 h4, of diffTree exampleSha] h5 h6 h7
  have "map_of (diffBackup exampleSha diffTree diffZip) ''tree/meta.js'' = Some ?obj"
    and "map_of (diffBackup exampleSha diffTree diffZip) (bakPath ''tree/meta.js'') =
      Some \<lparr>z_dir = False, z_bytes = f_bytes ?old\<rparr>"
    by blast+
  with h1 h2 h4 h5 h6 h7 h8 diffZip_result show ?thesis
    by simp
qed

text \<open>
  Against C6 as the specification has it, which leaves the favicon cache out of the
  comparison. Lines 1024 to 1034 put an empty file in the zip for each of the two unused
  favicons; the comparison then treats these entries under \<^verbatim>\<open>tree/favicon/\<close> like any
  other: the old content of \<^verbatim>\<open>old.ico\<close> differs and is put at
  \<^verbatim>\<open>tree.bak/favicon/old.ico\<close>, and \<^verbatim>\<open>gone.ico\<close>, which was empty already, is removed from
  the zip.
\<close>

theorem favicon_subtree_is_diffed:
  "sweepFavicons {} [''tree/favicon/old.ico'', ''tree/favicon/gone.ico''] [] =
     [(''tree/favicon/old.ico'', \<lparr>z_dir = False, z_bytes = []\<rparr>),
      (''tree/favicon/gone.ico'', \<lparr>z_dir = False, z_bytes = []\<rparr>)] \<and>
   diffBackup exampleSha faviconTree
       (sweepFavicons {} [''tree/favicon/old.ico'', ''tree/favicon/gone.ico''] []) =
     [(''tree/favicon/old.ico'', \<lparr>z_dir = False, z_bytes = []\<rparr>),
      (''tree.bak/favicon/old.ico'', \<lparr>z_dir = False, z_bytes = ''ICON''\<rparr>)]"
proof -
  have 1: "sweepFavicons {} [''tree/favicon/old.ico'', ''tree/favicon/gone.ico''] [] =
     [(''tree/favicon/old.ico'', \<lparr>z_dir = False, z_bytes = []\<rparr>),
      (''tree/favicon/gone.ico'', \<lparr>z_dir = False, z_bytes = []\<rparr>)]"
    by (simp add: sweepFavicons_def zipAddFile_def startsWith_def)
  have 2: "diffBackup exampleSha faviconTree
     [(''tree/favicon/old.ico'', \<lparr>z_dir = False, z_bytes = []\<rparr>),
      (''tree/favicon/gone.ico'', \<lparr>z_dir = False, z_bytes = []\<rparr>)] =
     [(''tree/favicon/old.ico'', \<lparr>z_dir = False, z_bytes = []\<rparr>),
      (''tree.bak/favicon/old.ico'', \<lparr>z_dir = False, z_bytes = ''ICON''\<rparr>)]"
    by (simp add: diffBackup_def diffEntry_def faviconTree_def exampleSha_def
        zipAddFile_def bakPath_def startsWith_def)
  from 1 2 show ?thesis by simp
qed

subsection \<open>The favicon cache\<close>

lemma accessIcon_effect:
  assumes "accessIcon env lib url st = (res, st1)"
  shows "urlAccessMap st1 url = Some res"
    and "\<And>u r. urlAccessMap st u = Some r \<Longrightarrow> urlAccessMap st1 u = Some r"
    and "i_meta st1 = i_meta st"
    and "accessesOk env lib st \<Longrightarrow> accessesOk env lib st1"
proof -
  show "urlAccessMap st1 url = Some res"
    and "\<And>u r. urlAccessMap st u = Some r \<Longrightarrow> urlAccessMap st1 u = Some r"
    and "i_meta st1 = i_meta st"
    using assms
    by (auto simp: accessIcon_def Let_def split: option.splits if_splits)
  show "accessesOk env lib st1" if ok: "accessesOk env lib st"
  proof (cases "urlAccessMap st url")
    case (Some prev)
    with assms ok show ?thesis by (simp add: accessIcon_def)
  next
    case None
    with assms have st1: "st1 = st\<lparr>urlAccessMap := (urlAccessMap st)
          (url \<mapsto> fetchIcon env lib (length (fetched st)) url),
        fetched := fetched st @ [url]\<rparr>"
      by (auto simp: accessIcon_def Let_def)
    from ok None have new: "url \<notin> set (fetched st)"
      by (simp add: accessesOk_def)
    show ?thesis
      unfolding accessesOk_def
    proof (intro conjI allI impI)
      fix u
      show "u \<in> set (fetched st1) \<longleftrightarrow> urlAccessMap st1 u \<noteq> None"
        using ok by (auto simp: st1 accessesOk_def)
    next
      show "distinct (fetched st1)"
        using ok new by (simp add: st1 accessesOk_def)
    next
      fix u r assume u: "urlAccessMap st1 u = Some r"
      show "\<exists>n<length (fetched st1). fetched st1 ! n = u \<and> r = fetchIcon env lib n u"
      proof (cases "u = url")
        case True
        with u have "r = fetchIcon env lib (length (fetched st)) url"
          by (simp add: st1)
        with True show ?thesis
          by (intro exI [of _ "length (fetched st)"]) (simp add: st1)
      next
        case False
        with u have "urlAccessMap st u = Some r" by (simp add: st1)
        with ok obtain n where "n < length (fetched st)" "fetched st ! n = u"
          "r = fetchIcon env lib n u"
          unfolding accessesOk_def by blast
        then show ?thesis
          by (intro exI [of _ n]) (simp add: st1 nth_append)
      qed
    qed
  qed
qed

lemma cacheIcon_effect:
  assumes m: "map_of (i_meta st) k = Some m"
  shows "map_of (i_meta (cacheIcon env lib tf k st)) =
           (map_of (i_meta st))(k \<mapsto> m\<lparr>m_icon := newIcon (urlAccessMap (cacheIcon env lib tf k st)) m\<rparr>)"
    and "\<And>u r. urlAccessMap st u = Some r \<Longrightarrow> urlAccessMap (cacheIcon env lib tf k st) u = Some r"
    and "accessesOk env lib st \<Longrightarrow> accessesOk env lib (cacheIcon env lib tf k st)"
    and "truthy (m_icon m) \<Longrightarrow> CHR '':'' \<in> set (orEmpty (m_icon m)) \<Longrightarrow>
           urlAccessMap (cacheIcon env lib tf k st) (orEmpty (m_icon m)) \<noteq> None"
proof -
  obtain res st1 where a: "accessIcon env lib (orEmpty (m_icon m)) st = (res, st1)"
    by (cases "accessIcon env lib (orEmpty (m_icon m)) st")
  note e = accessIcon_effect [OF a]
  show "map_of (i_meta (cacheIcon env lib tf k st)) =
           (map_of (i_meta st))(k \<mapsto> m\<lparr>m_icon := newIcon (urlAccessMap (cacheIcon env lib tf k st)) m\<rparr>)"
    using m a e(1,3)
    by (cases res)
       (auto simp: cacheIcon_def setIcon_def newIcon_def Let_def update_conv' orEmpty_def)
  show "urlAccessMap (cacheIcon env lib tf k st) u = Some r" if "urlAccessMap st u = Some r" for u r
    using m a e(2) [OF that] that
    by (cases res) (auto simp: cacheIcon_def setIcon_def Let_def)
  show "accessesOk env lib (cacheIcon env lib tf k st)" if "accessesOk env lib st"
    using m a e(4) [OF that] that
    by (cases res) (auto simp: cacheIcon_def setIcon_def Let_def accessesOk_def)
  show "urlAccessMap (cacheIcon env lib tf k st) (orEmpty (m_icon m)) \<noteq> None"
    if "truthy (m_icon m)" "CHR '':'' \<in> set (orEmpty (m_icon m))"
    using m a e(1) that
    by (cases res) (auto simp: cacheIcon_def setIcon_def Let_def)
qed

lemma newIcon_mono:
  assumes "\<And>u r. a u = Some r \<Longrightarrow> b u = Some r"
    and "truthy (m_icon m) \<Longrightarrow> CHR '':'' \<in> set (orEmpty (m_icon m)) \<Longrightarrow> a (orEmpty (m_icon m)) \<noteq> None"
  shows "newIcon b m = newIcon a m"
proof (cases "\<not> truthy (m_icon m) \<or> CHR '':'' \<notin> set (orEmpty (m_icon m))")
  case True
  then show ?thesis by (auto simp: newIcon_def)
next
  case False
  with assms(2) obtain r where r: "a (orEmpty (m_icon m)) = Some r" by auto
  from assms(1) [OF r] r False show ?thesis
    by (simp add: newIcon_def)
qed

lemma fold_cacheIcon:
  assumes "distinct ks" and "\<forall>k\<in>set ks. map_of (i_meta st) k \<noteq> None"
  shows "(\<forall>u r. urlAccessMap st u = Some r \<longrightarrow>
            urlAccessMap (fold (cacheIcon env lib tf) ks st) u = Some r) \<and>
         (accessesOk env lib st \<longrightarrow> accessesOk env lib (fold (cacheIcon env lib tf) ks st)) \<and>
         (\<forall>k. map_of (i_meta (fold (cacheIcon env lib tf) ks st)) k =
            (if k \<in> set ks
             then map_option
                    (\<lambda>m. m\<lparr>m_icon := newIcon (urlAccessMap (fold (cacheIcon env lib tf) ks st)) m\<rparr>)
                    (map_of (i_meta st) k)
             else map_of (i_meta st) k)) \<and>
         (\<forall>k\<in>set ks. \<forall>m. map_of (i_meta st) k = Some m \<longrightarrow> truthy (m_icon m) \<longrightarrow>
            CHR '':'' \<in> set (orEmpty (m_icon m)) \<longrightarrow>
            urlAccessMap (fold (cacheIcon env lib tf) ks st) (orEmpty (m_icon m)) \<noteq> None)"
  using assms
proof (induction ks arbitrary: st)
  case Nil
  then show ?case by simp
next
  case (Cons k ks)
  let ?st1 = "cacheIcon env lib tf k st"
  let ?st' = "fold (cacheIcon env lib tf) ks ?st1"
  from Cons.prems(2) obtain m where m: "map_of (i_meta st) k = Some m" by auto
  note e = cacheIcon_effect [OF m, where env = env and lib = lib and tf = tf]
  from Cons.prems(1) have dks: "distinct ks" and nk: "k \<notin> set ks" by simp_all
  have dom1: "\<forall>k'\<in>set ks. map_of (i_meta ?st1) k' \<noteq> None"
    using Cons.prems(2) by (simp add: e(1))
  from Cons.IH [OF dks dom1] have
    mono: "\<And>u r. urlAccessMap ?st1 u = Some r \<Longrightarrow> urlAccessMap ?st' u = Some r" and
    ok: "accessesOk env lib ?st1 \<longrightarrow> accessesOk env lib ?st'" and
    meta: "\<And>k'. map_of (i_meta ?st') k' =
            (if k' \<in> set ks
             then map_option (\<lambda>m. m\<lparr>m_icon := newIcon (urlAccessMap ?st') m\<rparr>)
                    (map_of (i_meta ?st1) k')
             else map_of (i_meta ?st1) k')" and
    acc: "\<And>k' m'. k' \<in> set ks \<Longrightarrow> map_of (i_meta ?st1) k' = Some m' \<Longrightarrow> truthy (m_icon m') \<Longrightarrow>
            CHR '':'' \<in> set (orEmpty (m_icon m')) \<Longrightarrow>
            urlAccessMap ?st' (orEmpty (m_icon m')) \<noteq> None"
    by blast+
  have same: "newIcon (urlAccessMap ?st') m = newIcon (urlAccessMap ?st1) m"
    by (rule newIcon_mono [where a = "urlAccessMap ?st1" and b = "urlAccessMap ?st'", OF mono e(4)])
  have 1: "\<forall>u r. urlAccessMap st u = Some r \<longrightarrow> urlAccessMap ?st' u = Some r"
    using e(2) mono by blast
  have 2: "accessesOk env lib st \<longrightarrow> accessesOk env lib ?st'"
    using e(3) ok by blast
  have 3: "map_of (i_meta ?st') k' =
            (if k' \<in> set (k # ks)
             then map_option (\<lambda>m. m\<lparr>m_icon := newIcon (urlAccessMap ?st') m\<rparr>)
                    (map_of (i_meta st) k')
             else map_of (i_meta st) k')" for k'
  proof (cases "k' = k")
    case True
    with nk have "map_of (i_meta ?st') k' = map_of (i_meta ?st1) k"
      by (simp add: meta)
    also have "\<dots> = Some (m\<lparr>m_icon := newIcon (urlAccessMap ?st1) m\<rparr>)"
      by (simp add: e(1))
    finally show ?thesis
      using True m same by simp
  next
    case False
    then have "map_of (i_meta ?st1) k' = map_of (i_meta st) k'"
      by (simp add: e(1))
    with False show ?thesis
      by (simp add: meta)
  qed
  have 4: "urlAccessMap ?st' (orEmpty (m_icon m')) \<noteq> None"
    if "k' \<in> set (k # ks)" "map_of (i_meta st) k' = Some m'" "truthy (m_icon m')"
      "CHR '':'' \<in> set (orEmpty (m_icon m'))" for k' m'
  proof (cases "k' = k")
    case True
    with that(2) m have "m' = m" by simp
    with e(4) that(3,4) obtain r where "urlAccessMap ?st1 (orEmpty (m_icon m')) = Some r"
      by auto
    from mono [OF this] show ?thesis by simp
  next
    case False
    with that(1) have "k' \<in> set ks" by simp
    moreover from False that(2) have "map_of (i_meta ?st1) k' = Some m'"
      by (simp add: e(1))
    ultimately show ?thesis
      using that(3,4) by (rule acc)
  qed
  from 1 2 3 4 show ?case by simp
qed

lemma cacheFavicons_meta:
  assumes "distinct (map fst (i_meta st))"
  shows "map_of (i_meta (cacheFavicons env lib tf st)) k =
           map_option (\<lambda>m. m\<lparr>m_icon := newIcon (urlAccessMap (cacheFavicons env lib tf st)) m\<rparr>)
             (map_of (i_meta st) k)"
proof -
  have dom: "\<forall>k\<in>set (map fst (i_meta st)). map_of (i_meta st) k \<noteq> None"
    by (simp add: map_of_eq_None_iff)
  from fold_cacheIcon [OF assms dom, where env = env and lib = lib and tf = tf]
  have "map_of (i_meta (cacheFavicons env lib tf st)) k =
      (if k \<in> set (map fst (i_meta st))
       then map_option (\<lambda>m. m\<lparr>m_icon := newIcon (urlAccessMap (cacheFavicons env lib tf st)) m\<rparr>)
              (map_of (i_meta st) k)
       else map_of (i_meta st) k)"
    unfolding cacheFavicons_def by blast
  moreover have "k \<notin> set (map fst (i_meta st)) \<Longrightarrow> map_of (i_meta st) k = None"
    by (simp add: map_of_eq_None_iff)
  ultimately show ?thesis
    by (cases "k \<in> set (map fst (i_meta st))") simp_all
qed




lemma iconMetas_run:
  "cacheFavicons exampleEnv exampleLib Map.empty (startIcons iconMetas []) = iconResult"
  by (simp add: cacheFavicons_def cacheIcon_def accessIcon_def fetchIcon_def setIcon_def
      iconUrl_def startIcons_def iconMetas_def iconResult_def iconFile_def exampleLib_def
      exampleEnv_def exampleSha_def zipAddFile_def getDefaultMeta_def truthy_def orEmpty_def
      startsWith_def Let_def)

text \<open>
  C10: the favicon pass leaves the entry of an item as it is when its icon is not empty
  and has no \<^verbatim>\<open>:\<close>. The pass writes the icon of every entry and nothing else of it: an
  icon that is empty or absent is stored as the empty string, and only an icon with a
  \<^verbatim>\<open>:\<close> is replaced, by the empty string when its access failed and otherwise by the
  address of the cached file, \<^verbatim>\<open>../tree/favicon/\<close> and the name of the file, with one more
  \<^verbatim>\<open>../\<close> when the index path of the item has a \<^verbatim>\<open>/\<close>.
\<close>

theorem favicon_pass_keeps_relative_icon:
  assumes "distinct (map fst (i_meta st))" and "map_of (i_meta st) k = Some m"
  shows "\<exists>m'. map_of (i_meta (cacheFavicons env lib treeFiles st)) k = Some m' \<and>
           m' = m\<lparr>m_icon := m_icon m'\<rparr> \<and>
           (truthy (m_icon m) \<and> CHR '':'' \<notin> set (orEmpty (m_icon m)) \<longrightarrow> m' = m) \<and>
           (\<not> truthy (m_icon m) \<longrightarrow> m_icon m' = Some []) \<and>
           (orEmpty (m_icon m') \<noteq> orEmpty (m_icon m) \<longrightarrow>
              truthy (m_icon m) \<and> CHR '':'' \<in> set (orEmpty (m_icon m)) \<and>
              (m_icon m' = Some [] \<or>
               (\<exists>file. m_icon m' = Some (iconUrl (orEmpty (m_index m)) file))))"
proof -
  let ?st' = "cacheFavicons env lib treeFiles st"
  let ?m' = "m\<lparr>m_icon := newIcon (urlAccessMap ?st') m\<rparr>"
  have 1: "map_of (i_meta ?st') k = Some ?m'"
    using cacheFavicons_meta [OF assms(1), of env lib treeFiles k] assms(2) by simp
  have 2: "?m' = m\<lparr>m_icon := m_icon ?m'\<rparr>" by simp
  have 3: "?m' = m" if "truthy (m_icon m) \<and> CHR '':'' \<notin> set (orEmpty (m_icon m))"
  proof -
    from that obtain s where "m_icon m = Some s"
      by (cases "m_icon m") (auto simp: truthy_def)
    with that show ?thesis
      by (simp add: newIcon_def orEmpty_def)
  qed
  have 4: "m_icon ?m' = Some []" if "\<not> truthy (m_icon m)"
    using that by (cases "m_icon m") (auto simp: newIcon_def truthy_def orEmpty_def)
  have 5: "truthy (m_icon m) \<and> CHR '':'' \<in> set (orEmpty (m_icon m)) \<and>
      (m_icon ?m' = Some [] \<or> (\<exists>file. m_icon ?m' = Some (iconUrl (orEmpty (m_index m)) file)))"
    if "orEmpty (m_icon ?m') \<noteq> orEmpty (m_icon m)"
  proof -
    have c: "\<not> (\<not> truthy (m_icon m) \<or> CHR '':'' \<notin> set (orEmpty (m_icon m)))"
    proof
      assume "\<not> truthy (m_icon m) \<or> CHR '':'' \<notin> set (orEmpty (m_icon m))"
      then have "m_icon ?m' = Some (orEmpty (m_icon m))"
        by (simp add: newIcon_def)
      with that show False by (simp add: orEmpty_def)
    qed
    then have "m_icon ?m' = Some [] \<or>
        (\<exists>file. m_icon ?m' = Some (iconUrl (orEmpty (m_index m)) file))"
      by (auto simp: newIcon_def split: option.splits)
    with c show ?thesis by blast
  qed
  from 1 2 3 4 5 show ?thesis
    by (intro exI [of _ ?m']) blast
qed

text \<open>
  The pass on \<open>iconMetas\<close>: the entry of \<^verbatim>\<open>a\<close>, whose icon is \<^verbatim>\<open>favicon.ico\<close>, is left as
  it is, while the icons of \<^verbatim>\<open>b\<close> and \<^verbatim>\<open>c\<close> are replaced.
\<close>

theorem favicon_pass_keeps_relative_icon_witness:
  "distinct (map fst (i_meta (startIcons iconMetas []))) \<and>
   map_of (i_meta (startIcons iconMetas [])) ''a'' =
     Some (getDefaultMeta\<lparr>m_icon := Some ''favicon.ico''\<rparr>) \<and>
   truthy (Some ''favicon.ico'') \<and> CHR '':'' \<notin> set ''favicon.ico'' \<and>
   map_of (i_meta (cacheFavicons exampleEnv exampleLib Map.empty (startIcons iconMetas []))) ''a'' =
     Some (getDefaultMeta\<lparr>m_icon := Some ''favicon.ico''\<rparr>) \<and>
   cacheFavicons exampleEnv exampleLib Map.empty (startIcons iconMetas []) = iconResult"
proof -
  let ?m = "getDefaultMeta\<lparr>m_icon := Some ''favicon.ico''\<rparr>"
  have h1: "distinct (map fst (i_meta (startIcons iconMetas [])))"
    by (simp add: startIcons_def iconMetas_def)
  have h2: "map_of (i_meta (startIcons iconMetas [])) ''a'' = Some ?m"
    by (simp add: startIcons_def iconMetas_def)
  have h3: "truthy (m_icon ?m) \<and> CHR '':'' \<notin> set (orEmpty (m_icon ?m))"
    by (simp add: truthy_def orEmpty_def)
  from favicon_pass_keeps_relative_icon
    [OF h1 h2, where env = exampleEnv and lib = exampleLib and treeFiles = Map.empty] h3
  have "map_of (i_meta (cacheFavicons exampleEnv exampleLib Map.empty (startIcons iconMetas [])))
      ''a'' = Some ?m"
    by auto
  moreover have "truthy (Some ''favicon.ico'')" "CHR '':'' \<notin> set ''favicon.ico''"
    by (simp_all add: truthy_def)
  ultimately show ?thesis
    using h1 h2 iconMetas_run by (intro conjI)
qed



end
